theory Spec2Isabelle
  imports Main "HOL-Library.Multiset"
begin

section \<open>Shared library behaviour\<close>

text \<open>
  \<^verbatim>\<open>Array.prototype.sort\<close> with a comparator is a stable sort.  The comparator of the
  source is always \<^verbatim>\<open>a.key.localeCompare(b.key)\<close>; its collation is a property of the
  runtime, so the relation \<open>le a b\<close> ("\<^verbatim>\<open>a.localeCompare(b) <= 0\<close>") is a parameter of the
  model.  Insertion from the right, placing an element before the first one it does not
  exceed, keeps equal keys in their original order.
\<close>

fun insort_by :: "('a \<Rightarrow> 'a \<Rightarrow> bool) \<Rightarrow> 'a \<Rightarrow> 'a list \<Rightarrow> 'a list" where
  "insort_by le x [] = [x]"
| "insort_by le x (y # ys) = (if le x y then x # y # ys else y # insort_by le x ys)"

definition sort_by :: "('a \<Rightarrow> 'a \<Rightarrow> bool) \<Rightarrow> 'a list \<Rightarrow> 'a list" where
  "sort_by le xs = foldr (insort_by le) xs []"

text \<open>What the proofs need of a comparator: any two keys compare, and the order is transitive.\<close>

definition total_preorder :: "('a \<Rightarrow> 'a \<Rightarrow> bool) \<Rightarrow> bool" where
  "total_preorder le = ((\<forall>a b. le a b \<or> le b a) \<and> (\<forall>a b c. le a b \<longrightarrow> le b c \<longrightarrow> le a c))"

text \<open>The code-unit order on strings, used where a concrete comparator is evaluated.\<close>

fun str_le :: "string \<Rightarrow> string \<Rightarrow> bool" where
  "str_le [] _ = True"
| "str_le (_ # _) [] = False"
| "str_le (a # as) (b # bs) =
     (if of_char a < (of_char b :: nat) then True
      else if of_char a = (of_char b :: nat) then str_le as bs
      else False)"

section \<open>Metadata index (pelican/metadata.js)\<close>

record date_range =
  date :: string
  entryCount :: int
  filePath :: string

record device =
  dateRanges :: "date_range list"
  totalEntries :: int
  dev_lastUpdated :: string

record site =
  devices :: "string \<rightharpoonup> device"

record metadata =
  sites :: "string \<rightharpoonup> site"
  indexVersion :: string
  lastUpdated :: string

text \<open>The argument object of \<^verbatim>\<open>updateMetadataForEntry\<close>; \<open>baseDir\<close> may be absent.\<close>

record entry_fact =
  fact_siteSlug :: string
  fact_serialNo :: string
  fact_date :: string
  fact_entryCount :: int
  fact_filePath :: string
  fact_baseDir :: "string option"

text \<open>\<^verbatim>\<open>existingRange.entryCount = ...; existingRange.filePath = ...\<close> on the first range
  that \<^verbatim>\<open>find\<close> returns.\<close>

fun update_existing :: "string \<Rightarrow> int \<Rightarrow> string \<Rightarrow> date_range list \<Rightarrow> date_range list" where
  "update_existing d n p [] = []"
| "update_existing d n p (r # rs) =
     (if date r = d then r\<lparr>entryCount := n, filePath := p\<rparr> # rs
      else r # update_existing d n p rs)"

text \<open>
  \<^verbatim>\<open>updateMetadataForEntry(metadata, {siteSlug, serialNo, date, entryCount, filePath, baseDir})\<close>.
  \<open>le\<close> is the collation of \<^verbatim>\<open>localeCompare\<close>, \<open>rel\<close> is \<^verbatim>\<open>path.relative\<close>, \<open>now\<close> is
  \<^verbatim>\<open>new Date().toISOString()\<close>.  The in-place mutation returns the new index.
\<close>

definition updateMetadataForEntry ::
  "(string \<Rightarrow> string \<Rightarrow> bool) \<Rightarrow> (string \<Rightarrow> string \<Rightarrow> string) \<Rightarrow> string \<Rightarrow>
   metadata \<Rightarrow> entry_fact \<Rightarrow> metadata" where
  "updateMetadataForEntry le rel now md f =
     (let st = (case sites md (fact_siteSlug f) of
                  None \<Rightarrow> \<lparr>devices = Map.empty\<rparr>
                | Some s \<Rightarrow> s);
          dev = (case devices st (fact_serialNo f) of
                   None \<Rightarrow> \<lparr>dateRanges = [], totalEntries = 0, dev_lastUpdated = now\<rparr>
                 | Some d \<Rightarrow> d);
          relativePath = (case fact_baseDir f of
                            None \<Rightarrow> fact_filePath f
                          | Some b \<Rightarrow> if b = [] then fact_filePath f else rel b (fact_filePath f));
          ranges = (case find (\<lambda>r. date r = fact_date f) (dateRanges dev) of
                      Some _ \<Rightarrow>
                        update_existing (fact_date f) (fact_entryCount f) relativePath (dateRanges dev)
                    | None \<Rightarrow>
                        sort_by (\<lambda>a b. le (date a) (date b))
                          (dateRanges dev @
                            [\<lparr>date = fact_date f, entryCount = fact_entryCount f,
                              filePath = relativePath\<rparr>]));
          dev' = dev\<lparr>dateRanges := ranges,
                     totalEntries := foldl (\<lambda>sum range. sum + entryCount range) 0 ranges,
                     dev_lastUpdated := now\<rparr>
      in md\<lparr>sites := (sites md)(fact_siteSlug f \<mapsto>
               st\<lparr>devices := (devices st)(fact_serialNo f \<mapsto> dev')\<rparr>)\<rparr>)"

text \<open>The index \<^verbatim>\<open>loadMetadata\<close> builds when there is no usable index document.\<close>

definition fresh_metadata :: "string \<Rightarrow> metadata" where
  "fresh_metadata now = \<lparr>sites = Map.empty, indexVersion = ''1.0'', lastUpdated = now\<rparr>"

text \<open>A run of update calls, each with the clock reading of its call.\<close>

fun update_all ::
  "(string \<Rightarrow> string \<Rightarrow> bool) \<Rightarrow> (string \<Rightarrow> string \<Rightarrow> string) \<Rightarrow>
   metadata \<Rightarrow> (string \<times> entry_fact) list \<Rightarrow> metadata" where
  "update_all le rel md [] = md"
| "update_all le rel md ((now, f) # fs) =
     update_all le rel (updateMetadataForEntry le rel now md f) fs"

text \<open>The invariant of the index: every device's total is the sum of its ranges' counts.\<close>

definition device_consistent :: "device \<Rightarrow> bool" where
  "device_consistent dev = (totalEntries dev = sum_list (map entryCount (dateRanges dev)))"

definition index_consistent :: "metadata \<Rightarrow> bool" where
  "index_consistent md =
     (\<forall>s st d dev. sites md s = Some st \<longrightarrow> devices st d = Some dev \<longrightarrow> device_consistent dev)"

text \<open>
  Errors of the runtime that the modelled code can meet: a failed file read, a text that is
  not JSON, a property read on \<^verbatim>\<open>null\<close>, and the errors the code raises itself.
\<close>

datatype js_error = IOError | SyntaxError | TypeError | Thrown string

text \<open>
  \<^verbatim>\<open>loadMetadata(baseDir)\<close>: \<open>join\<close> is \<^verbatim>\<open>path.join\<close>, \<open>readFile\<close> gives the text of a file
  or \<open>None\<close> when the read throws, \<open>parse\<close> is \<^verbatim>\<open>JSON.parse\<close> (\<open>None\<close> when it throws) on
  documents that hold an index.  The \<^verbatim>\<open>try\<close> block is the inner \<open>case\<close>, the \<^verbatim>\<open>catch\<close> the
  outer one.
\<close>

definition loadMetadata ::
  "(string \<Rightarrow> string \<Rightarrow> string) \<Rightarrow> (string \<Rightarrow> string option) \<Rightarrow> (string \<Rightarrow> metadata option) \<Rightarrow>
   string \<Rightarrow> string \<Rightarrow> js_error + metadata" where
  "loadMetadata join readFile parse now baseDir =
     (let metadataPath = join baseDir ''metadata.json'' in
      case (case readFile metadataPath of
              None \<Rightarrow> Inl IOError
            | Some content \<Rightarrow>
                (case parse content of None \<Rightarrow> Inl SyntaxError | Some m \<Rightarrow> Inr m)) of
        Inr m \<Rightarrow> Inr m
      | Inl error \<Rightarrow> Inr (fresh_metadata now))"

section \<open>Range query engine (pelican/query.js)\<close>

record query =
  q_siteSlug :: string
  q_serialNo :: string
  q_startDate :: string
  q_endDate :: string
  q_baseDir :: "string option"

record file_ref =
  ref_path :: string
  ref_date :: string
  ref_entryCount :: int

text \<open>
  \<^verbatim>\<open>findFilesForQuery(metadata, {siteSlug, serialNo, startDate, endDate, baseDir})\<close>.
  \<open>toTime\<close> is \<^verbatim>\<open>new Date(s).getTime()\<close>, \<open>None\<close> for an invalid date (every comparison with
  \<^verbatim>\<open>NaN\<close> is false); \<open>resolve\<close> is \<^verbatim>\<open>path.resolve\<close>.
\<close>

definition date_in_range :: "int option \<Rightarrow> int option \<Rightarrow> int option \<Rightarrow> bool" where
  "date_in_range rangeDate start end =
     (case (rangeDate, start, end) of
        (Some r, Some s, Some e) \<Rightarrow> r \<ge> s \<and> r \<le> e
      | _ \<Rightarrow> False)"

definition findFilesForQuery ::
  "(string \<Rightarrow> int option) \<Rightarrow> (string \<Rightarrow> string \<Rightarrow> string) \<Rightarrow> metadata \<Rightarrow> query \<Rightarrow> file_ref list" where
  "findFilesForQuery toTime resolve md q =
     (if q_siteSlug q = [] \<or> q_serialNo q = [] \<or> q_startDate q = [] \<or> q_endDate q = [] then []
      else case sites md (q_siteSlug q) of
        None \<Rightarrow> []
      | Some st \<Rightarrow>
          (case devices st (q_serialNo q) of
             None \<Rightarrow> []
           | Some dev \<Rightarrow>
               (let start = toTime (q_startDate q);
                    end = toTime (q_endDate q);
                    matchingRanges =
                      filter (\<lambda>range. date_in_range (toTime (date range)) start end)
                        (dateRanges dev)
                in map (\<lambda>range.
                      \<lparr>ref_path = (case q_baseDir q of
                                     None \<Rightarrow> filePath range
                                   | Some b \<Rightarrow> if b = [] then filePath range
                                              else resolve b (filePath range)),
                       ref_date = date range,
                       ref_entryCount = entryCount range\<rparr>) matchingRanges)))"

text \<open>
  What reading and parsing a partition file gives \<^verbatim>\<open>queryFiles\<close>: the read or the parse
  throws (also the property read on a parsed \<^verbatim>\<open>null\<close>), an array, an object with a
  \<^verbatim>\<open>History\<close> array (with the object's own \<^verbatim>\<open>serialNo\<close>, \<^verbatim>\<open>name\<close>, \<^verbatim>\<open>groupName\<close> as
  \<open>'h\<close>), an object with a truthy \<^verbatim>\<open>timestamp\<close>, or any other JSON value.
\<close>

datatype ('h, 'e) file_data =
    Unreadable
  | ArrayData "'e list"
  | HistoryData 'h "'e list"
  | SingleData 'e
  | OtherData

text \<open>The \<^verbatim>\<open>entries\<close> the code takes from one file; \<open>spread h e\<close> is
  \<^verbatim>\<open>{...entry, serialNo: data.serialNo, name: data.name, groupName: data.groupName}\<close>.\<close>

fun entries_of :: "('h \<Rightarrow> 'e \<Rightarrow> 'e) \<Rightarrow> ('h, 'e) file_data \<Rightarrow> 'e list" where
  "entries_of spread Unreadable = []"
| "entries_of spread (ArrayData es) = es"
| "entries_of spread (HistoryData h es) = map (spread h) es"
| "entries_of spread (SingleData e) = [e]"
| "entries_of spread OtherData = []"

record 'e progress =
  results :: "'e list"
  skipped :: int
  yielded :: int

text \<open>The inner loop \<^verbatim>\<open>for (const entry of entries)\<close>: skip, stop at a full page, or take.\<close>

fun take_entries :: "int \<Rightarrow> int \<Rightarrow> 'e progress \<Rightarrow> 'e list \<Rightarrow> 'e progress" where
  "take_entries skipCount limit st [] = st"
| "take_entries skipCount limit st (entry # rest) =
     (if skipped st < skipCount
      then take_entries skipCount limit (st\<lparr>skipped := skipped st + 1\<rparr>) rest
      else if yielded st \<ge> limit then st
      else take_entries skipCount limit
             (st\<lparr>results := results st @ [entry], yielded := yielded st + 1\<rparr>) rest)"

text \<open>The outer loop \<^verbatim>\<open>for (const file of files)\<close>; a file whose read throws is logged and
  passed over.  \<open>filePath\<close> is the path expression of the loop body.\<close>

definition query_path ::
  "(string \<Rightarrow> bool) \<Rightarrow> (string \<Rightarrow> string \<Rightarrow> string) \<Rightarrow> string option \<Rightarrow> file_ref \<Rightarrow> string" where
  "query_path isAbsolute join baseDir file =
     (if isAbsolute (ref_path file) then ref_path file
      else case baseDir of
             None \<Rightarrow> ref_path file
           | Some b \<Rightarrow> if b = [] then ref_path file else join b (ref_path file))"

fun scan_files ::
  "(string \<Rightarrow> ('h, 'e) file_data) \<Rightarrow> ('h \<Rightarrow> 'e \<Rightarrow> 'e) \<Rightarrow> (file_ref \<Rightarrow> string) \<Rightarrow>
   int \<Rightarrow> int \<Rightarrow> 'e progress \<Rightarrow> file_ref list \<Rightarrow> 'e progress" where
  "scan_files readData spread pathOf skipCount limit st [] = st"
| "scan_files readData spread pathOf skipCount limit st (file # rest) =
     (if yielded st \<ge> limit then st
      else case readData (pathOf file) of
        Unreadable \<Rightarrow> scan_files readData spread pathOf skipCount limit st rest
      | data \<Rightarrow>
          scan_files readData spread pathOf skipCount limit
            (take_entries skipCount limit st (entries_of spread data)) rest)"

record 'e query_result =
  data :: "'e list"
  page :: int
  limit :: int
  hasMore :: bool
  totalReturned :: nat

text \<open>\<^verbatim>\<open>queryFiles(files, {page, limit, baseDir})\<close>; the defaults \<^verbatim>\<open>page = 0\<close> and
  \<^verbatim>\<open>limit = 1000\<close> are the caller's to pass.\<close>

definition queryFiles ::
  "(string \<Rightarrow> ('h, 'e) file_data) \<Rightarrow> ('h \<Rightarrow> 'e \<Rightarrow> 'e) \<Rightarrow> (string \<Rightarrow> bool) \<Rightarrow>
   (string \<Rightarrow> string \<Rightarrow> string) \<Rightarrow> file_ref list \<Rightarrow> int \<Rightarrow> int \<Rightarrow> string option \<Rightarrow> 'e query_result" where
  "queryFiles readData spread isAbsolute join files pg lim baseDir =
     (let skipCount = pg * lim;
          st = scan_files readData spread (query_path isAbsolute join baseDir) skipCount lim
                 \<lparr>results = [], skipped = 0, yielded = 0\<rparr> files
      in \<lparr>data = results st, page = pg, limit = lim,
          hasMore = (yielded st = lim \<and> length files > 0),
          totalReturned = length (results st)\<rparr>)"

text \<open>All the records of the candidate files, in order: what the pages are cut from.\<close>

definition all_entries ::
  "(string \<Rightarrow> ('h, 'e) file_data) \<Rightarrow> ('h \<Rightarrow> 'e \<Rightarrow> 'e) \<Rightarrow> (file_ref \<Rightarrow> string) \<Rightarrow> file_ref list \<Rightarrow> 'e list" where
  "all_entries readData spread pathOf files =
     concat (map (\<lambda>file. entries_of spread (readData (pathOf file))) files)"

section \<open>Partitioned store writer (history module)\<close>

text \<open>
  A history record is a JSON object; the writer reads only its \<^verbatim>\<open>timestamp\<close>, a string
  that may be missing.  An emitted entry has a \<^verbatim>\<open>serialNo\<close> and a \<^verbatim>\<open>History\<close>; \<open>None\<close>
  stands for a missing serial, and for a \<^verbatim>\<open>History\<close> that is not an array.
\<close>

record 'p history_record =
  timestamp :: "string option"
  payload :: 'p

record 'p history_entry =
  serialNo :: "string option"
  History :: "'p history_record list option"

text \<open>\<^verbatim>\<open>sanitizeFileSegment(value, fallback)\<close>: trim, replace every run of characters outside
  \<^verbatim>\<open>[a-zA-Z0-9._-]\<close> by one dash, fall back when nothing is left.  Strings are bytes here, so
  the white space of \<^verbatim>\<open>trim\<close> is the ASCII one.\<close>

definition is_space :: "char \<Rightarrow> bool" where
  "is_space c = (of_char c \<in> {9, 10, 11, 12, 13, 32 :: nat})"

definition trim :: "string \<Rightarrow> string" where
  "trim s = rev (dropWhile is_space (rev (dropWhile is_space s)))"

definition is_digit :: "char \<Rightarrow> bool" where
  "is_digit c = (48 \<le> (of_char c :: nat) \<and> (of_char c :: nat) \<le> 57)"

definition is_segment_char :: "char \<Rightarrow> bool" where
  "is_segment_char c =
     (let n = (of_char c :: nat)
      in (97 \<le> n \<and> n \<le> 122) \<or> (65 \<le> n \<and> n \<le> 90) \<or> (48 \<le> n \<and> n \<le> 57) \<or>
         c = CHR ''.'' \<or> c = CHR ''_'' \<or> c = CHR ''-'')"

fun replace_runs :: "bool \<Rightarrow> string \<Rightarrow> string" where
  "replace_runs in_run [] = []"
| "replace_runs in_run (c # cs) =
     (if is_segment_char c then c # replace_runs False cs
      else if in_run then replace_runs True cs
      else CHR ''-'' # replace_runs True cs)"

definition sanitizeFileSegment :: "string \<Rightarrow> string \<Rightarrow> string" where
  "sanitizeFileSegment v fallback =
     (let cleaned = replace_runs False (trim v)
      in if cleaned = [] then fallback else cleaned)"

text \<open>\<^verbatim>\<open>extractDateFromTimestamp\<close>: the match of \<^verbatim>\<open>/^(\d{4}-\d{2}-\d{2})/\<close>.\<close>

definition matches_date :: "string \<Rightarrow> bool" where
  "matches_date s =
     (length s \<ge> 10 \<and> list_all is_digit (take 4 s) \<and> s ! 4 = CHR ''-'' \<and>
      list_all is_digit (take 2 (drop 5 s)) \<and> s ! 7 = CHR ''-'' \<and>
      list_all is_digit (take 2 (drop 8 s)))"

definition extractDateFromTimestamp :: "string option \<Rightarrow> string option" where
  "extractDateFromTimestamp ts =
     (case ts of
        None \<Rightarrow> None
      | Some s \<Rightarrow> if s = [] then None
                  else if matches_date s then Some (take 10 s) else None)"

text \<open>\<^verbatim>\<open>String.prototype.split\<close> on one character.\<close>

fun split_on :: "char \<Rightarrow> string \<Rightarrow> string list" where
  "split_on c [] = [[]]"
| "split_on c (x # xs) =
     (if x = c then [] # split_on c xs
      else case split_on c xs of
             [] \<Rightarrow> [[x]]
           | w # ws \<Rightarrow> (x # w) # ws)"

text \<open>\<^verbatim>\<open>recordsByDate\<close>: a \<^verbatim>\<open>Map\<close> iterates in the order its keys were first set.\<close>

fun group_push :: "string \<Rightarrow> 'r \<Rightarrow> (string \<times> 'r list) list \<Rightarrow> (string \<times> 'r list) list" where
  "group_push d r [] = [(d, [r])]"
| "group_push d r ((k, rs) # g) =
     (if k = d then (k, rs @ [r]) # g else (k, rs) # group_push d r g)"

fun group_by_date ::
  "(string \<times> 'p history_record list) list \<Rightarrow> 'p history_record list \<Rightarrow>
   (string \<times> 'p history_record list) list" where
  "group_by_date g [] = g"
| "group_by_date g (r # rs) =
     (case extractDateFromTimestamp (timestamp r) of
        None \<Rightarrow> group_by_date g rs
      | Some d \<Rightarrow> group_by_date (group_push d r g) rs)"

text \<open>\<^verbatim>\<open>recordMap\<close>: the values in insertion order; a record enters only when its timestamp is
  truthy and not yet a key.\<close>

definition truthy :: "string option \<Rightarrow> bool" where
  "truthy k = (case k of None \<Rightarrow> False | Some s \<Rightarrow> s \<noteq> [])"

fun merge_records ::
  "'p history_record list \<Rightarrow> 'p history_record list \<Rightarrow> 'p history_record list" where
  "merge_records recordMap [] = recordMap"
| "merge_records recordMap (r # rs) =
     (if truthy (timestamp r) \<and> timestamp r \<notin> set (map timestamp recordMap)
      then merge_records (recordMap @ [r]) rs
      else merge_records recordMap rs)"

definition stamp :: "'p history_record \<Rightarrow> string" where
  "stamp r = (case timestamp r of None \<Rightarrow> [] | Some s \<Rightarrow> s)"

definition mergedRecords ::
  "(string \<Rightarrow> string \<Rightarrow> bool) \<Rightarrow> 'p history_record list \<Rightarrow> 'p history_record list \<Rightarrow>
   'p history_record list" where
  "mergedRecords le existingRecords records =
     sort_by (\<lambda>a b. le (stamp a) (stamp b)) (merge_records [] (existingRecords @ records))"

text \<open>
  The store: a path has no file, or a file with what reading and parsing it gives.  The
  partition of a date is \<^verbatim>\<open>baseDir/siteSlug/serialSegment/year/month/day.json\<close>;
  \<^verbatim>\<open>path.resolve\<close> and \<^verbatim>\<open>path.join\<close> are modelled on plain segments, joined by a slash.
\<close>

type_synonym ('h, 'p) store = "string \<rightharpoonup> ('h, 'p history_record) file_data"

definition existing_records :: "('h, 'p) store \<Rightarrow> string \<Rightarrow> 'p history_record list" where
  "existing_records fs targetPath =
     (case fs targetPath of
        Some (ArrayData rs) \<Rightarrow> rs
      | _ \<Rightarrow> [])"

definition target_path :: "string \<Rightarrow> string \<Rightarrow> string \<Rightarrow> string \<Rightarrow> string \<Rightarrow> string \<Rightarrow> string" where
  "target_path baseDir siteSlug serialSegment year month day =
     baseDir @ ''/'' @ siteSlug @ ''/'' @ serialSegment @ ''/'' @ year @ ''/'' @ month @
       ''/'' @ day @ ''.json''"

record written_file =
  wf_path :: string
  wf_date :: string
  wf_entryCount :: int

record write_event =
  ev_siteSlug :: string
  ev_serialNo :: string
  ev_date :: string
  ev_entryCount :: int
  ev_filePath :: string

text \<open>
  The loop \<^verbatim>\<open>for (const [date, records] of recordsByDate.entries())\<close>.  It returns the store,
  \<^verbatim>\<open>writtenFiles\<close> and the arguments of the \<^verbatim>\<open>onEntryWritten\<close> calls, in order.  A date
  with fewer than three parts would pass \<^verbatim>\<open>undefined\<close> to \<^verbatim>\<open>path.resolve\<close>, a TypeError.
\<close>

fun write_groups ::
  "(string \<Rightarrow> string \<Rightarrow> bool) \<Rightarrow> string \<Rightarrow> string \<Rightarrow> string \<Rightarrow> string \<Rightarrow> ('h, 'p) store \<Rightarrow>
   (string \<times> 'p history_record list) list \<Rightarrow>
   js_error + (('h, 'p) store \<times> written_file list \<times> write_event list)" where
  "write_groups le baseDir siteSlug serial serialSegment fs [] = Inr (fs, [], [])"
| "write_groups le baseDir siteSlug serial serialSegment fs ((d, records) # rest) =
     (case split_on CHR ''-'' d of
        year # month # day # _ \<Rightarrow>
          (let targetPath = target_path baseDir siteSlug serialSegment year month day;
               merged = mergedRecords le (existing_records fs targetPath) records;
               fs' = fs(targetPath \<mapsto> ArrayData merged)
           in case write_groups le baseDir siteSlug serial serialSegment fs' rest of
                Inl e \<Rightarrow> Inl e
              | Inr (fs'', files, events) \<Rightarrow>
                  Inr (fs'',
                       \<lparr>wf_path = targetPath, wf_date = d, wf_entryCount = int (length merged)\<rparr>
                         # files,
                       \<lparr>ev_siteSlug = siteSlug, ev_serialNo = serial, ev_date = d,
                        ev_entryCount = int (length merged), ev_filePath = targetPath\<rparr>
                         # events))
      | _ \<Rightarrow> Inl TypeError)"

text \<open>\<^verbatim>\<open>writeThermostatHistoryByDate({baseDir, siteSlug, entry, onEntryWritten})\<close>; the second
  component is the returned value, \<open>None\<close> for \<^verbatim>\<open>null\<close>.\<close>

definition writeThermostatHistoryByDate ::
  "(string \<Rightarrow> string \<Rightarrow> bool) \<Rightarrow> string \<Rightarrow> string \<Rightarrow> ('h, 'p) store \<Rightarrow> 'p history_entry \<Rightarrow>
   js_error + (('h, 'p) store \<times> written_file list option \<times> write_event list)" where
  "writeThermostatHistoryByDate le baseDir siteSlug fs entry =
     (if \<not> truthy (serialNo entry) then Inr (fs, None, [])
      else
        let serial = the (serialNo entry);
            serialSegment = sanitizeFileSegment serial ''unknown'';
            historyRecords = (case History entry of None \<Rightarrow> [] | Some rs \<Rightarrow> rs)
        in if length historyRecords = 0 then Inr (fs, None, [])
           else case write_groups le baseDir siteSlug serial serialSegment fs
                       (group_by_date [] historyRecords) of
                  Inl e \<Rightarrow> Inl e
                | Inr (fs', files, events) \<Rightarrow> Inr (fs', Some files, events))"

text \<open>
  Notions the properties of the writer are stated with.  A date is what
  \<open>extractDateFromTimestamp\<close> returns: ten characters \<^verbatim>\<open>dddd-dd-dd\<close>.  The partition of a
  date is the path the loop computes for it.
\<close>

definition is_date :: "string \<Rightarrow> bool" where
  "is_date d = (length d = 10 \<and> matches_date d)"

definition partition_path :: "string \<Rightarrow> string \<Rightarrow> string \<Rightarrow> string \<Rightarrow> string" where
  "partition_path baseDir siteSlug serialSegment d =
     target_path baseDir siteSlug serialSegment (take 4 d) (take 2 (drop 5 d)) (drop 8 d)"

definition records_on :: "string \<Rightarrow> 'p history_record list \<Rightarrow> 'p history_record list" where
  "records_on d rs = filter (\<lambda>r. extractDateFromTimestamp (timestamp r) = Some d) rs"

definition has_date :: "'p history_record \<Rightarrow> bool" where
  "has_date r = (extractDateFromTimestamp (timestamp r) \<noteq> None)"

definition history_of :: "'p history_entry \<Rightarrow> 'p history_record list" where
  "history_of entry = (case History entry of None \<Rightarrow> [] | Some rs \<Rightarrow> rs)"

definition segment_of :: "'p history_entry \<Rightarrow> string" where
  "segment_of entry = sanitizeFileSegment (the (serialNo entry)) ''unknown''"

definition written_list :: "written_file list option \<Rightarrow> written_file list" where
  "written_list files = (case files of None \<Rightarrow> [] | Some l \<Rightarrow> l)"

text \<open>
  The writer in closed form: \<open>merged_at\<close> is the content written to a path for a group of
  records, \<open>store_after\<close> the store after the loop over the groups, \<open>files_after\<close> and
  \<open>events_after\<close> what it reports.  \<open>write_groups_eq\<close> below proves that the loop computes
  exactly these.
\<close>

definition merged_at ::
  "(string \<Rightarrow> string \<Rightarrow> bool) \<Rightarrow> ('h, 'p) store \<Rightarrow> string \<Rightarrow> 'p history_record list \<Rightarrow>
   'p history_record list" where
  "merged_at le fs p rs = mergedRecords le (existing_records fs p) rs"

definition store_after ::
  "(string \<Rightarrow> string \<Rightarrow> bool) \<Rightarrow> string \<Rightarrow> string \<Rightarrow> string \<Rightarrow> ('h, 'p) store \<Rightarrow>
   (string \<times> 'p history_record list) list \<Rightarrow> ('h, 'p) store" where
  "store_after le b s seg fs g =
     (\<lambda>p. case find (\<lambda>(d, rs). partition_path b s seg d = p) g of
            None \<Rightarrow> fs p
          | Some (d, rs) \<Rightarrow> Some (ArrayData (merged_at le fs p rs)))"

definition files_after ::
  "(string \<Rightarrow> string \<Rightarrow> bool) \<Rightarrow> string \<Rightarrow> string \<Rightarrow> string \<Rightarrow> ('h, 'p) store \<Rightarrow>
   (string \<times> 'p history_record list) list \<Rightarrow> written_file list" where
  "files_after le b s seg fs g =
     map (\<lambda>(d, rs). \<lparr>wf_path = partition_path b s seg d, wf_date = d,
           wf_entryCount = int (length (merged_at le fs (partition_path b s seg d) rs))\<rparr>) g"

definition events_after ::
  "(string \<Rightarrow> string \<Rightarrow> bool) \<Rightarrow> string \<Rightarrow> string \<Rightarrow> string \<Rightarrow> string \<Rightarrow> ('h, 'p) store \<Rightarrow>
   (string \<times> 'p history_record list) list \<Rightarrow> write_event list" where
  "events_after le b s ser seg fs g =
     map (\<lambda>(d, rs). \<lparr>ev_siteSlug = s, ev_serialNo = ser, ev_date = d,
           ev_entryCount = int (length (merged_at le fs (partition_path b s seg d) rs)),
           ev_filePath = partition_path b s seg d\<rparr>) g"

text \<open>A store with one partition of two records, and an entry that repeats one of their
  timestamps, adds an earlier record and a record of the next day, and carries two records
  without a date.\<close>

definition example_store :: "(unit, string) store" where
  "example_store =
     [''/b/site/A1/2025/08/30.json'' \<mapsto>
        ArrayData [\<lparr>timestamp = Some ''2025-08-30T00:01'', payload = ''stored 1''\<rparr>,
                   \<lparr>timestamp = Some ''2025-08-30T00:02'', payload = ''stored 2''\<rparr>]]"

definition example_entry :: "string history_entry" where
  "example_entry =
     \<lparr>serialNo = Some ''A1'',
      History = Some [\<lparr>timestamp = Some ''2025-08-30T00:02'', payload = ''new 2''\<rparr>,
                      \<lparr>timestamp = Some ''2025-08-30T00:00'', payload = ''new 0''\<rparr>,
                      \<lparr>timestamp = Some ''2025-08-31T00:00'', payload = ''next day''\<rparr>,
                      \<lparr>timestamp = Some ''n/a'', payload = ''undated''\<rparr>,
                      \<lparr>timestamp = None, payload = ''no timestamp''\<rparr>]\<rparr>"

section \<open>Range splitter (history module)\<close>

text \<open>
  A \<^verbatim>\<open>Date\<close> is its time value, an instant in milliseconds since the epoch.  Its local
  getters and setters go through the time zone of the process, which is a parameter here:
  \<open>toLocal\<close> reads an instant on the local wall clock (the instant plus the offset in force
  at it, as \<^verbatim>\<open>getTime() - getTimezoneOffset() * 60000\<close> does), and \<open>toUTC\<close> gives the
  instant of a wall-clock reading (with the rule of the engine for a reading that a change of
  offset skips or repeats).  Wall-clock readings are in milliseconds from 1970-01-01T00:00
  local, so a local day, whatever its length in instants, is a block of \<open>dayMs\<close> readings.
\<close>

definition dayMs :: int where "dayMs = 24 * 60 * 60 * 1000"

record zone =
  toLocal :: "int \<Rightarrow> int"
  toUTC :: "int \<Rightarrow> int"

text \<open>The number of the local day of an instant, and the instant at which a local day
  starts.\<close>

definition local_day :: "zone \<Rightarrow> int \<Rightarrow> int" where
  "local_day z t = toLocal z t div dayMs"

definition midnight :: "zone \<Rightarrow> int \<Rightarrow> int" where
  "midnight z k = toUTC z (k * dayMs)"

text \<open>\<^verbatim>\<open>setHours(h, m, s, ms)\<close> keeps the local day and sets the time of day, here in
  milliseconds: \<^verbatim>\<open>setHours(23, 59, 59, 999)\<close> is \<open>setHours z (dayMs - 1)\<close> and
  \<^verbatim>\<open>setHours(0, 0, 0, 0)\<close> is \<open>setHours z 0\<close>.  \<^verbatim>\<open>setDate(getDate() + 1)\<close> moves to the same
  wall-clock time of the next local day.\<close>

definition setHours :: "zone \<Rightarrow> int \<Rightarrow> int \<Rightarrow> int" where
  "setHours z timeOfDay t = toUTC z (local_day z t * dayMs + timeOfDay)"

definition addDay :: "zone \<Rightarrow> int \<Rightarrow> int" where
  "addDay z t = toUTC z (toLocal z t + dayMs)"

text \<open>\<^verbatim>\<open>toPelicanDateTime\<close> formats the local time to the second,
  \<^verbatim>\<open>YYYY-MM-DDTHH:MM:SS\<close>; the string is represented by the index of its second on the
  wall clock.\<close>

definition toPelicanDateTime :: "zone \<Rightarrow> int \<Rightarrow> int" where
  "toPelicanDateTime z t = toLocal z t div 1000"

record range =
  startDateTime :: int
  endDateTime :: int

text \<open>The end of the sub-span that starts at \<open>rangeStart\<close>: the raw end, cut at \<open>end\<close>,
  moved to the end of its local day, and clamped to \<open>end\<close> again.\<close>

definition range_end :: "zone \<Rightarrow> int \<Rightarrow> int \<Rightarrow> int \<Rightarrow> int" where
  "range_end z end chunkMs rangeStart =
     (let rawEndMs = rangeStart + chunkMs - 1;
          rangeEnd = setHours z (dayMs - 1) (min end rawEndMs)
      in if rangeEnd > end then end else rangeEnd)"

text \<open>The loop \<^verbatim>\<open>while (cursor <= end)\<close>, with its \<^verbatim>\<open>break\<close> when the next start does not
  advance.\<close>

function split_loop :: "zone \<Rightarrow> int \<Rightarrow> int \<Rightarrow> int \<Rightarrow> range list" where
  "split_loop z end chunkMs cursor =
     (if cursor \<le> end then
        (let rangeStart = cursor;
             rangeEnd = range_end z end chunkMs rangeStart;
             r = \<lparr>startDateTime = toPelicanDateTime z rangeStart,
                  endDateTime = toPelicanDateTime z rangeEnd\<rparr>;
             nextStart = setHours z 0 (addDay z rangeEnd)
         in if nextStart \<le> rangeStart then [r]
            else r # split_loop z end chunkMs nextStart)
      else [])"
  by pat_completeness auto
termination
  by (relation "measure (\<lambda>(z, end, chunkMs, cursor). nat (end - cursor + 1))") auto

declare split_loop.simps [simp del]

text \<open>
  An argument of \<^verbatim>\<open>splitDateRange\<close> is missing (falsy), or gives an invalid \<^verbatim>\<open>Date\<close>, or
  gives an instant.  The function throws for a missing argument, for \<^verbatim>\<open>chunkDays\<close> outside
  1..\<^verbatim>\<open>MAX_RANGE_DAYS\<close> (30), for an invalid date and for a start after the end.
\<close>

datatype date_input = Missing | Invalid | At int

datatype split_error = Required | ChunkDaysOutOfRange int | InvalidDate | StartAfterEnd

definition splitDateRange ::
  "zone \<Rightarrow> date_input \<Rightarrow> date_input \<Rightarrow> int \<Rightarrow> split_error + range list" where
  "splitDateRange z startInput endInput chunkDays =
     (if startInput = Missing \<or> endInput = Missing then Inl Required
      else if chunkDays < 1 \<or> chunkDays > 30 then Inl (ChunkDaysOutOfRange chunkDays)
      else case (startInput, endInput) of
             (At start, At end) \<Rightarrow>
               if start > end then Inl StartAfterEnd
               else Inr (split_loop z end (chunkDays * 24 * 60 * 60 * 1000) start)
           | _ \<Rightarrow> Inl InvalidDate)"

text \<open>Calendar dates, to write instants and formatted strings readably: the day number of a
  proleptic Gregorian date (day 0 is 1970-01-01), midnight UTC of a date in milliseconds
  (also the wall-clock reading of a local midnight), and the second index of
  \<^verbatim>\<open>YYYY-MM-DDTHH:MM:SS\<close>.\<close>

definition days_from_civil :: "int \<Rightarrow> int \<Rightarrow> int \<Rightarrow> int" where
  "days_from_civil y m d =
     (let y' = (if m \<le> 2 then y - 1 else y);
          era = y' div 400;
          yoe = y' - era * 400;
          doy = (153 * (if m > 2 then m - 3 else m + 9) + 2) div 5 + d - 1;
          doe = yoe * 365 + yoe div 4 - yoe div 100 + doy
      in era * 146097 + doe - 719468)"

definition civil_ms :: "int \<Rightarrow> int \<Rightarrow> int \<Rightarrow> int" where
  "civil_ms y m d = days_from_civil y m d * dayMs"

definition civil_second :: "int \<Rightarrow> int \<Rightarrow> int \<Rightarrow> int \<Rightarrow> int \<Rightarrow> int \<Rightarrow> int" where
  "civil_second y m d hh mm ss = days_from_civil y m d * 86400 + hh * 3600 + mm * 60 + ss"


definition parseLocal :: "zone \<Rightarrow> int \<Rightarrow> int" where
  "parseLocal z s = toUTC z (s * 1000)"



text \<open>
  Time zones.  A zone with a fixed offset, UTC among them; and America/Chicago as it is in
  2025: six hours behind UTC, five between 2025-03-09T02:00 local (08:00 UTC), when the clock
  jumps to 03:00, and 2025-11-02T02:00 local (07:00 UTC), when it goes back to 01:00.  A
  reading in the skipped hour is taken with the offset before the change, and a reading in
  the repeated hour is its first occurrence.
\<close>

definition fixed_zone :: "int \<Rightarrow> zone" where
  "fixed_zone offset = \<lparr>toLocal = (\<lambda>t. t + offset), toUTC = (\<lambda>l. l - offset)\<rparr>"


definition chicago_2025 :: zone where
  "chicago_2025 =
     \<lparr>toLocal = (\<lambda>t. if civil_ms 2025 3 9 + 8 * 3600000 \<le> t \<and> t < civil_ms 2025 11 2 + 7 * 3600000
                      then t - 5 * 3600000 else t - 6 * 3600000),
      toUTC = (\<lambda>l. if civil_ms 2025 3 9 + 3 * 3600000 \<le> l \<and> l < civil_ms 2025 11 2 + 2 * 3600000
                    then l + 5 * 3600000 else l + 6 * 3600000)\<rparr>"

text \<open>
  What the properties below need of a zone: the instants of a local day are those from its
  midnight up to the next midnight; a wall-clock reading gives an instant of the local day
  it names; the last millisecond of a local day is the instant just before the next
  midnight; and a midnight, and the instant just before one, read back as themselves.  So
  the offset never changes across a midnight.  Days may have any length.
\<close>

definition zone_ok :: "zone \<Rightarrow> bool" where
  "zone_ok z =
     ((\<forall>t k. (k \<le> local_day z t) = (midnight z k \<le> t)) \<and>
      (\<forall>l. local_day z (toUTC z l) = l div dayMs) \<and>
      (\<forall>k. toUTC z (k * dayMs + (dayMs - 1)) = midnight z (k + 1) - 1) \<and>
      (\<forall>k. toLocal z (midnight z k) = k * dayMs) \<and>
      (\<forall>k. toLocal z (midnight z (k + 1) - 1) = k * dayMs + (dayMs - 1)))"





section \<open>Stream extractor (history module)\<close>

text \<open>
  The state of \<^verbatim>\<open>createHistoryStreamParser\<close>: the closure's variables.  \<open>buffer\<close> is the join
  of \<^verbatim>\<open>bufferChunks\<close>, \<open>emitted\<close> the records handed to \<^verbatim>\<open>onHistory\<close>, in order.
\<close>

record 'r parser =
  buffer :: string
  capturing :: bool
  historyFound :: bool
  historyCompleted :: bool
  inString :: bool
  escapeNext :: bool
  braceDepth :: nat
  objectStart :: int
  tailText :: string
  entryIndex :: nat
  emitted :: "'r list"

definition KEY :: string where
  "KEY = ''\"ThermostatHistory\"''"

definition initial_parser :: "'r parser" where
  "initial_parser =
     \<lparr>buffer = [], capturing = False, historyFound = False, historyCompleted = False,
      inString = False, escapeNext = False, braceDepth = 0, objectStart = - 1,
      tailText = [], entryIndex = 0, emitted = []\<rparr>"

text \<open>\<^verbatim>\<open>String.prototype.indexOf(pattern, from)\<close>; \<open>None\<close> is \<^verbatim>\<open>-1\<close>.\<close>

fun index_in :: "string \<Rightarrow> string \<Rightarrow> nat \<Rightarrow> nat option" where
  "index_in pat [] i = (if pat = [] then Some i else None)"
| "index_in pat (c # cs) i =
     (if take (length pat) (c # cs) = pat then Some i else index_in pat cs (i + 1))"

definition indexOf :: "string \<Rightarrow> string \<Rightarrow> nat \<Rightarrow> nat option" where
  "indexOf s pat from = index_in pat (drop from s) (min from (length s))"

text \<open>\<^verbatim>\<open>appendTail\<close>: keep the last \<open>tailLimit\<close> characters (\<^verbatim>\<open>slice(-0)\<close> keeps all).\<close>

definition appendTail :: "nat \<Rightarrow> string \<Rightarrow> 'r parser \<Rightarrow> 'r parser" where
  "appendTail tailLimit text st =
     (if text = [] then st
      else let t = tailText st @ text
           in st\<lparr>tailText := (if length t > tailLimit
                                then (if tailLimit = 0 then t else drop (length t - tailLimit) t)
                                else t)\<rparr>)"

text \<open>What \<^verbatim>\<open>replace(/^[\s,]+/, "")\<close> strips after an emitted object: white space (the
  ASCII part of \<^verbatim>\<open>\s\<close>) and commas.\<close>

definition is_gap :: "char \<Rightarrow> bool" where
  "is_gap c = (of_char c \<in> {9, 10, 11, 12, 13, 32 :: nat} \<or> c = CHR '','')"

text \<open>
  The scanning loop \<^verbatim>\<open>while (index < buffer.length)\<close> of \<^verbatim>\<open>feed\<close>, with the statements
  after it.  \<open>parse\<close> is \<^verbatim>\<open>JSON.parse\<close> (\<open>None\<close> when it throws, which aborts the feed).  An
  emitted object restarts the scan on the rest of the buffer at index 0.
\<close>

function scan ::
  "(string \<Rightarrow> 'r option) \<Rightarrow> nat \<Rightarrow> 'r parser \<Rightarrow> string \<Rightarrow> nat \<Rightarrow> js_error + 'r parser" where
  "scan parse tailLimit st buf index =
     (if index < length buf then
        (let char = buf ! index in
         if inString st then
           scan parse tailLimit
             (if escapeNext st then st\<lparr>escapeNext := False\<rparr>
              else if char = CHR 0x5C then st\<lparr>escapeNext := True\<rparr>
              else if char = CHR 0x22 then st\<lparr>inString := False\<rparr>
              else st)
             buf (index + 1)
         else if char = CHR 0x22 then
           scan parse tailLimit (st\<lparr>inString := True\<rparr>) buf (index + 1)
         else if char = CHR ''{'' then
           scan parse tailLimit
             (st\<lparr>objectStart := (if braceDepth st = 0 then int index else objectStart st),
                 braceDepth := braceDepth st + 1\<rparr>)
             buf (index + 1)
         else if char = CHR ''}'' then
           (let st1 = (if braceDepth st > 0 then st\<lparr>braceDepth := braceDepth st - 1\<rparr> else st)
            in if braceDepth st1 = 0 \<and> objectStart st1 \<noteq> - 1 then
                 (let jsonSlice = take (index + 1 - nat (objectStart st1))
                                    (drop (nat (objectStart st1)) buf);
                      rest = dropWhile is_gap (drop (index + 1) buf)
                  in case parse jsonSlice of
                       None \<Rightarrow> Inl SyntaxError
                     | Some parsed \<Rightarrow>
                         scan parse tailLimit
                           (st1\<lparr>objectStart := - 1, entryIndex := entryIndex st1 + 1,
                                emitted := emitted st1 @ [parsed]\<rparr>)
                           rest 0)
               else scan parse tailLimit st1 buf (index + 1))
         else if char = CHR '']'' \<and> braceDepth st = 0 then
           Inr ((appendTail tailLimit (drop (index + 1) buf) st)
                  \<lparr>buffer := [], capturing := False, historyCompleted := True\<rparr>)
         else scan parse tailLimit st buf (index + 1))
      else
        Inr (if objectStart st > 0
             then st\<lparr>buffer := drop (nat (objectStart st)) buf, objectStart := 0\<rparr>
             else st\<lparr>buffer := buf\<rparr>))"
  by pat_completeness auto
termination
proof (relation "measure (\<lambda>(parse, tailLimit, st, buf, index). length buf - index)")
  show "wf (measure (\<lambda>(parse :: string \<Rightarrow> 'r option, tailLimit :: nat, st :: 'r parser,
                       buf :: string, index :: nat). length buf - index))"
    by simp
next
  fix parse :: "string \<Rightarrow> 'r option" and tailLimit :: nat and st st1 :: "'r parser"
    and buf rest :: string and index :: nat
  assume "index < length buf" and "rest = dropWhile is_gap (drop (index + 1) buf)"
  then have "length rest \<le> length buf - (index + 1)"
    using length_dropWhile_le [of is_gap "drop (index + 1) buf"] by simp
  with \<open>index < length buf\<close> show "((parse, tailLimit,
       st1\<lparr>objectStart := - 1, entryIndex := entryIndex st1 + 1, emitted := emitted st1 @ [x]\<rparr>,
       rest, 0), parse, tailLimit, st, buf, index)
    \<in> measure (\<lambda>(parse, tailLimit, st, buf, index). length buf - index)" for x
    by simp
qed auto


declare scan.simps [simp del]

text \<open>
  \<^verbatim>\<open>feed(chunk)\<close>.  The chunk is appended to what the last call left in \<^verbatim>\<open>bufferChunks\<close>, and
  the scan starts at index 0 of the joined buffer with the \<open>inString\<close>, \<open>escapeNext\<close>,
  \<open>braceDepth\<close> and \<open>objectStart\<close> that the last call left.
\<close>

definition feed ::
  "(string \<Rightarrow> 'r option) \<Rightarrow> nat \<Rightarrow> 'r parser \<Rightarrow> string \<Rightarrow> js_error + 'r parser" where
  "feed parse tailLimit st chunk =
     (if chunk = [] then Inr st
      else if historyCompleted st then Inr (appendTail tailLimit chunk st)
      else
        let buf = buffer st @ chunk
        in if \<not> capturing st then
             (case indexOf buf KEY 0 of
                None \<Rightarrow>
                  Inr (st\<lparr>buffer := (if length buf > length KEY
                                       then drop (length buf - length KEY) buf else buf)\<rparr>)
              | Some keyIndex \<Rightarrow>
                  (case indexOf buf ''['' (keyIndex + length KEY) of
                     None \<Rightarrow> Inr (st\<lparr>buffer := drop keyIndex buf\<rparr>)
                   | Some arrayStart \<Rightarrow>
                       scan parse tailLimit
                         (st\<lparr>historyFound := True, capturing := True, inString := False,
                             escapeNext := False, braceDepth := 0, objectStart := - 1\<rparr>)
                         (drop (arrayStart + 1) buf) 0))
           else scan parse tailLimit st buf 0)"

fun feed_all ::
  "(string \<Rightarrow> 'r option) \<Rightarrow> nat \<Rightarrow> 'r parser \<Rightarrow> string list \<Rightarrow> js_error + 'r parser" where
  "feed_all parse tailLimit st [] = Inr st"
| "feed_all parse tailLimit st (chunk # chunks) =
     (case feed parse tailLimit st chunk of
        Inl e \<Rightarrow> Inl e
      | Inr st' \<Rightarrow> feed_all parse tailLimit st' chunks)"

text \<open>\<^verbatim>\<open>finalize()\<close>; \<^verbatim>\<open>extractMessageFromTail\<close> is a parameter.\<close>

record summary =
  sum_historyFound :: bool
  sum_historyCompleted :: bool
  sum_entryCount :: nat
  sum_message :: "string option"

definition finalize :: "(string \<Rightarrow> string option) \<Rightarrow> 'r parser \<Rightarrow> summary" where
  "finalize extractMessageFromTail st =
     \<lparr>sum_historyFound = historyFound st, sum_historyCompleted = historyCompleted st,
      sum_entryCount = entryIndex st, sum_message = extractMessageFromTail (tailText st)\<rparr>"

text \<open>
  The payload of the specification's scenario, and a cut of it into three pieces: the first
  two cuts fall inside the first and the second object of the array.
\<close>

definition scenario_payload :: string where
  "scenario_payload =
     ''{\"result\":[{\"ThermostatHistory\":[{\"serialNo\":\"A1\",\"History\":[{\"timestamp\":\"2025-08-30T00:00:00\"}]},{\"serialNo\":\"B2\",\"History\":[]}]}]}''"

definition piece1 :: string where
  "piece1 = ''{\"result\":[{\"ThermostatHistory\":[{\"serialNo\":\"A1\",\"History\":[{\"timestamp\":''"

definition piece2 :: string where
  "piece2 = ''\"2025-08-30T00:00:00\"}]},{\"serialNo\":\"B2\",''"

definition piece3 :: string where
  "piece3 = ''\"History\":[]}]}]}''"

text \<open>The parser after each of the three pieces.\<close>

definition after_piece1 :: "string parser" where
  "after_piece1 =
     \<lparr>buffer = ''{\"serialNo\":\"A1\",\"History\":[{\"timestamp\":'',
      capturing = True, historyFound = True, historyCompleted = False,
      inString = False, escapeNext = False, braceDepth = 2, objectStart = 0,
      tailText = [], entryIndex = 0, emitted = []\<rparr>"

definition after_piece2 :: "string parser" where
  "after_piece2 =
     \<lparr>buffer = ''{\"serialNo\":\"A1\",\"History\":[{\"timestamp\":\"2025-08-30T00:00:00\"}]},{\"serialNo\":\"B2\",'',
      capturing = True, historyFound = True, historyCompleted = False,
      inString = False, escapeNext = False, braceDepth = 3, objectStart = 0,
      tailText = [], entryIndex = 0, emitted = []\<rparr>"

definition after_piece3 :: "string parser" where
  "after_piece3 =
     \<lparr>buffer = ''{\"serialNo\":\"A1\",\"History\":[{\"timestamp\":\"2025-08-30T00:00:00\"}]},{\"serialNo\":\"B2\",\"History\":[]}]}]}'',
      capturing = True, historyFound = True, historyCompleted = False,
      inString = False, escapeNext = False, braceDepth = 1, objectStart = 0,
      tailText = [], entryIndex = 0, emitted = []\<rparr>"

text \<open>What a run of feeds leaves for the caller: the records emitted and the summary fields
  of \<^verbatim>\<open>finalize\<close>.\<close>

definition outcome_of ::
  "js_error + 'r parser \<Rightarrow> js_error + ('r list \<times> nat \<times> bool \<times> bool)" where
  "outcome_of res =
     map_sum id (\<lambda>st. (emitted st, entryIndex st, historyFound st, historyCompleted st)) res"

section \<open>Rate-limited dispatcher (co-api.js and the edge-compatible client)\<close>

text \<open>
  The two copies of the dispatcher, in \<^verbatim>\<open>campus-optimizer/co-api.js\<close> and in the
  edge-compatible client, keep per key the object \<^verbatim>\<open>{intervalMs, lastRunMs, queue, running}\<close>.
  The model is a state machine over the events of the event loop, each with the reading of
  \<^verbatim>\<open>Date.now()\<close> when it runs.  Beside the four fields a limiter records what the loop has
  pending for it: \<open>timer\<close>, the due time of the \<^verbatim>\<open>setTimeout\<close> that \<^verbatim>\<open>_runQueue\<close> has set, and
  \<open>inflight\<close>, the item whose task is awaited; and two logs, \<open>dispatched\<close> (item and time of
  each dispatch) and \<open>delivered\<close> (what was passed to each item's \<^verbatim>\<open>resolve\<close> or \<^verbatim>\<open>reject\<close>).
\<close>

datatype 'v outcome = Resolved 'v | Rejected string

record ('t, 'v) limiter =
  intervalMs :: int
  lastRunMs :: int
  queue :: "'t list"
  running :: bool
  timer :: "int option"
  inflight :: "'t option"
  dispatched :: "('t \<times> int) list"
  delivered :: "('t \<times> 'v outcome) list"

text \<open>
  \<^verbatim>\<open>coFetch\<close> derives the interval from the key: \<^verbatim>\<open>CLIENT_QPS[clientKey] || DEFAULT_QPS\<close>, or
  \<^verbatim>\<open>GLOBAL_QPS\<close> for the global key, and \<^verbatim>\<open>Math.max(1, Math.floor(1000 / Math.max(1, qps)))\<close>.
  The table has the one key 1841; keys are client ids or \<^verbatim>\<open>__global__\<close>.  The edge-compatible
  client has \<^verbatim>\<open>qps = 10\<close> for every key, the same value.
\<close>

definition CLIENT_QPS :: "string \<rightharpoonup> int" where
  "CLIENT_QPS = [''1841'' \<mapsto> 10]"

definition DEFAULT_QPS :: int where "DEFAULT_QPS = 10"

definition GLOBAL_QPS :: int where "GLOBAL_QPS = 10"

definition qps_of :: "string \<Rightarrow> int" where
  "qps_of clientKey =
     (if clientKey = ''__global__'' then GLOBAL_QPS
      else case CLIENT_QPS clientKey of
             None \<Rightarrow> DEFAULT_QPS
           | Some q \<Rightarrow> if q = 0 then DEFAULT_QPS else q)"

definition interval_of :: "string \<Rightarrow> int" where
  "interval_of clientKey = max 1 (1000 div max 1 (qps_of clientKey))"

text \<open>\<^verbatim>\<open>_getLimiterState\<close>, \<^verbatim>\<open>_runQueue\<close> up to its \<^verbatim>\<open>setTimeout\<close>, and
  \<^verbatim>\<open>_enqueueWithRateLimit\<close>, at the time \<open>now\<close>.\<close>

definition getLimiterState ::
  "(string \<rightharpoonup> ('t, 'v) limiter) \<Rightarrow> string \<Rightarrow> int \<Rightarrow> ('t, 'v) limiter" where
  "getLimiterState m key iv =
     (case m key of
        None \<Rightarrow> \<lparr>intervalMs = iv, lastRunMs = 0, queue = [], running = False,
                  timer = None, inflight = None, dispatched = [], delivered = []\<rparr>
      | Some st \<Rightarrow> st)\<lparr>intervalMs := iv\<rparr>"

definition runQueue :: "int \<Rightarrow> ('t, 'v) limiter \<Rightarrow> ('t, 'v) limiter" where
  "runQueue now st =
     (if length (queue st) = 0 then st\<lparr>running := False\<rparr>
      else let waitMs = max 0 (lastRunMs st + intervalMs st - now)
           in st\<lparr>timer := Some (now + waitMs)\<rparr>)"

definition enqueueWithRateLimit ::
  "int \<Rightarrow> (string \<rightharpoonup> ('t, 'v) limiter) \<Rightarrow> string \<Rightarrow> int \<Rightarrow> 't \<Rightarrow> (string \<rightharpoonup> ('t, 'v) limiter)" where
  "enqueueWithRateLimit now m key iv task =
     (let st = getLimiterState m key iv;
          st1 = st\<lparr>queue := queue st @ [task]\<rparr>
      in m(key \<mapsto> (if \<not> running st1 then runQueue now (st1\<lparr>running := True\<rparr>) else st1)))"

text \<open>
  The callback of the \<^verbatim>\<open>setTimeout\<close>: shift the queue, record the dispatch time, start the
  task.  On an empty queue \<^verbatim>\<open>item\<close> would be \<^verbatim>\<open>undefined\<close> and the callback would throw; the
  invariant \<open>limiter_ok\<close> below shows that a pending timer has a non-empty queue.  When the
  awaited promise settles, the result is delivered and \<^verbatim>\<open>finally\<close> calls \<^verbatim>\<open>_runQueue\<close>.
\<close>

definition timer_callback :: "int \<Rightarrow> ('t, 'v) limiter \<Rightarrow> ('t, 'v) limiter option" where
  "timer_callback now st =
     (case queue st of
        [] \<Rightarrow> None
      | item # rest \<Rightarrow>
          Some (st\<lparr>queue := rest, lastRunMs := now, timer := None, inflight := Some item,
                   dispatched := dispatched st @ [(item, now)]\<rparr>))"

definition task_settled :: "int \<Rightarrow> 't \<Rightarrow> 'v outcome \<Rightarrow> ('t, 'v) limiter \<Rightarrow> ('t, 'v) limiter" where
  "task_settled now item result st =
     runQueue now (st\<lparr>inflight := None, delivered := delivered st @ [(item, result)]\<rparr>)"

text \<open>
  The events: a submission through \<^verbatim>\<open>coFetch\<close>; the timer of a key firing; the task in
  flight settling; and, only where the task is raced against a timer, that timer firing.
\<close>

datatype ('t, 'v) event =
    Submit string 't
  | TimerFires string
  | Settles string "'v outcome"
  | TimesOut string

fun key_of :: "('t, 'v) event \<Rightarrow> string" where
  "key_of (Submit key task) = key"
| "key_of (TimerFires key) = key"
| "key_of (Settles key result) = key"
| "key_of (TimesOut key) = key"

text \<open>The module state \<^verbatim>\<open>_rateLimiterState\<close> and the time of the last event.\<close>

record ('t, 'v) dispatcher =
  limiters :: "string \<rightharpoonup> ('t, 'v) limiter"
  clock :: int

definition initial_dispatcher :: "('t, 'v) dispatcher" where
  "initial_dispatcher = \<lparr>limiters = Map.empty, clock = 0\<rparr>"

definition on_limiter ::
  "('t, 'v) dispatcher \<Rightarrow> int \<Rightarrow> string \<Rightarrow> (('t, 'v) limiter \<Rightarrow> ('t, 'v) limiter option) \<Rightarrow>
   ('t, 'v) dispatcher option" where
  "on_limiter d now key f =
     (case limiters d key of
        None \<Rightarrow> None
      | Some st \<Rightarrow>
          (case f st of
             None \<Rightarrow> None
           | Some st' \<Rightarrow> Some (d\<lparr>limiters := (limiters d)(key \<mapsto> st'), clock := now\<rparr>)))"

text \<open>
  One event at time \<open>now\<close>; \<open>None\<close> when the event cannot happen in the state: time does not
  run backwards, a timer does not fire before it is due, only a task in flight settles, and a
  task times out only where there is a task timeout (\<open>taskTimeout\<close>), not before it has
  elapsed since the dispatch.
\<close>

fun step ::
  "int option \<Rightarrow> ('t, 'v) dispatcher \<Rightarrow> int \<times> ('t, 'v) event \<Rightarrow> ('t, 'v) dispatcher option" where
  "step taskTimeout d (now, ev) =
     (if now < clock d then None
      else case ev of
        Submit key task \<Rightarrow>
          Some (d\<lparr>limiters := enqueueWithRateLimit now (limiters d) key (interval_of key) task,
                  clock := now\<rparr>)
      | TimerFires key \<Rightarrow>
          on_limiter d now key
            (\<lambda>st. case timer st of
                     None \<Rightarrow> None
                   | Some due \<Rightarrow> if now < due then None else timer_callback now st)
      | Settles key result \<Rightarrow>
          on_limiter d now key
            (\<lambda>st. case inflight st of
                     None \<Rightarrow> None
                   | Some item \<Rightarrow> Some (task_settled now item result st))
      | TimesOut key \<Rightarrow>
          (case taskTimeout of
             None \<Rightarrow> None
           | Some timeoutMs \<Rightarrow>
               on_limiter d now key
                 (\<lambda>st. case inflight st of
                          None \<Rightarrow> None
                        | Some item \<Rightarrow>
                            if now < lastRunMs st + timeoutMs then None
                            else Some (task_settled now item
                                         (Rejected ''Request timeout after 10s'') st))))"

fun run ::
  "int option \<Rightarrow> ('t, 'v) dispatcher \<Rightarrow> (int \<times> ('t, 'v) event) list \<Rightarrow> ('t, 'v) dispatcher option" where
  "run taskTimeout d [] = Some d"
| "run taskTimeout d (e # es) =
     (case step taskTimeout d e of
        None \<Rightarrow> None
      | Some d' \<Rightarrow> run taskTimeout d' es)"

text \<open>\<^verbatim>\<open>co-api.js\<close> awaits \<^verbatim>\<open>item.task()\<close> alone; the edge-compatible client races it against
  a timer of 10 000 ms.\<close>

definition co_api :: "int option" where "co_api = None"
definition co_client :: "int option" where "co_client = Some 10000"

text \<open>
  Notions the properties are stated with: dispatch times at least an interval apart; the
  tasks submitted under a key, in order; the tasks a limiter has dispatched or still queues;
  the events of one key; and the invariant of a limiter.
\<close>

fun spaced :: "int \<Rightarrow> int list \<Rightarrow> bool" where
  "spaced iv [] = True"
| "spaced iv [t] = True"
| "spaced iv (t # u # ts) = (t + iv \<le> u \<and> spaced iv (u # ts))"

fun submitted :: "string \<Rightarrow> (int \<times> ('t, 'v) event) list \<Rightarrow> 't list" where
  "submitted key [] = []"
| "submitted key ((now, Submit k task) # es) =
     (if k = key then task # submitted key es else submitted key es)"
| "submitted key (e # es) = submitted key es"

definition tasks_of :: "('t, 'v) dispatcher \<Rightarrow> string \<Rightarrow> 't list" where
  "tasks_of d key =
     (case limiters d key of None \<Rightarrow> [] | Some st \<Rightarrow> map fst (dispatched st) @ queue st)"

definition events_of :: "string \<Rightarrow> (int \<times> ('t, 'v) event) list \<Rightarrow> (int \<times> ('t, 'v) event) list" where
  "events_of key es = filter (\<lambda>(now, ev). key_of ev = key) es"

definition limiter_ok :: "string \<Rightarrow> ('t, 'v) limiter \<Rightarrow> bool" where
  "limiter_ok key st =
     (intervalMs st = interval_of key \<and>
      running st = (timer st \<noteq> None \<or> inflight st \<noteq> None) \<and>
      (timer st = None \<or> inflight st = None) \<and>
      (timer st = None \<or> queue st \<noteq> []) \<and>
      (running st \<or> queue st = []) \<and>
      (case timer st of None \<Rightarrow> True | Some due \<Rightarrow> lastRunMs st + intervalMs st \<le> due) \<and>
      (dispatched st = [] \<or> snd (last (dispatched st)) = lastRunMs st) \<and>
      spaced (interval_of key) (map snd (dispatched st)))"

definition dispatcher_ok :: "('t, 'v) dispatcher \<Rightarrow> bool" where
  "dispatcher_ok d = (\<forall>key st. limiters d key = Some st \<longrightarrow> limiter_ok key st)"

text \<open>Two keys interleaved; and two submissions under one key, the first dispatched and
  not settled.\<close>

definition example_events :: "(int \<times> (nat, string) event) list" where
  "example_events =
     [(1000, Submit ''1841'' 1), (1001, Submit ''1841'' 2), (1002, Submit ''7'' 3),
      (1003, TimerFires ''1841''), (1004, TimerFires ''7''),
      (1020, Settles ''1841'' (Resolved ''a'')), (1103, TimerFires ''1841''),
      (1110, Settles ''7'' (Rejected ''x''))]"

definition hung_events :: "(int \<times> (nat, string) event) list" where
  "hung_events =
     [(1000, Submit ''1841'' 1), (1001, Submit ''1841'' 2), (1001, TimerFires ''1841'')]"

section \<open>Properties of the shared library behaviour\<close>

lemma mset_insort_by: "mset (insort_by le x xs) = add_mset x (mset xs)"
  by (induction xs) auto

lemma mset_sort_by: "mset (sort_by le xs) = mset xs"
  unfolding sort_by_def by (induction xs) (auto simp: mset_insort_by)

lemma set_sort_by: "set (sort_by le xs) = set xs"
  using mset_sort_by [of le xs] by (metis set_mset_mset)

lemma length_sort_by: "length (sort_by le xs) = length xs"
  using mset_sort_by [of le xs] by (metis size_mset)

lemma sum_list_insort_by:
  "sum_list (map f (insort_by le x xs)) = (f x :: int) + sum_list (map f xs)"
  by (induction xs) auto

lemma sum_list_sort_by: "sum_list (map f (sort_by le xs)) = (sum_list (map f xs) :: int)"
  unfolding sort_by_def by (induction xs) (auto simp: sum_list_insort_by)

lemma foldl_add_sum_list: "foldl (\<lambda>sum r. sum + f r) (a::int) xs = a + sum_list (map f xs)"
  by (induction xs arbitrary: a) auto

lemma sorted_insort_by:
  assumes "total_preorder le"
  shows "sorted_wrt le xs \<Longrightarrow> sorted_wrt le (insort_by le x xs)"
proof (induction xs)
  case Nil
  show ?case by simp
next
  case (Cons y ys)
  have tot: "\<And>a b. \<not> le a b \<Longrightarrow> le b a"
    using assms unfolding total_preorder_def by blast
  have tr: "\<And>a b c. le a b \<Longrightarrow> le b c \<Longrightarrow> le a c"
    using assms unfolding total_preorder_def by blast
  show ?case
  proof (cases "le x y")
    case True
    then have "\<forall>z\<in>set ys. le x z"
      using Cons.prems tr by auto
    with True Cons.prems show ?thesis by simp
  next
    case False
    then have "le y x" by (rule tot)
    moreover have "set (insort_by le x ys) = insert x (set ys)"
      using mset_insort_by [of le x ys] by (metis set_mset_add_mset_insert set_mset_mset)
    ultimately show ?thesis
      using False Cons by auto
  qed
qed

lemma sorted_sort_by: "total_preorder le \<Longrightarrow> sorted_wrt le (sort_by le xs)"
  unfolding sort_by_def by (induction xs) (auto simp: sorted_insort_by)

lemma sort_by_sorted: "sorted_wrt le xs \<Longrightarrow> sort_by le xs = xs"
proof (induction xs)
  case Nil
  show ?case by (simp add: sort_by_def)
next
  case (Cons x xs)
  then have "sort_by le xs = xs" by simp
  then have "sort_by le (x # xs) = insort_by le x xs"
    by (simp add: sort_by_def)
  also have "\<dots> = x # xs"
    using Cons.prems by (cases xs) auto
  finally show ?case .
qed

lemma total_preorder_key: "total_preorder le \<Longrightarrow> total_preorder (\<lambda>a b. le (f a) (f b))"
  unfolding total_preorder_def by blast

lemma str_le_total: "str_le a b \<or> str_le b a"
  by (induction a b rule: str_le.induct) auto

lemma str_le_trans: "str_le a b \<Longrightarrow> str_le b c \<Longrightarrow> str_le a c"
proof (induction a b arbitrary: c rule: str_le.induct)
  case (1 uu)
  show ?case by simp
next
  case (2 x xs)
  then show ?case by simp
next
  case (3 x xs y ys)
  then show ?case
    by (cases c) (auto split: if_splits)
qed

lemma total_preorder_str_le: "total_preorder str_le"
  unfolding total_preorder_def using str_le_total str_le_trans by blast

section \<open>Properties of the metadata index\<close>

lemma update_device_consistent:
  assumes "sites (updateMetadataForEntry le rel now md f) s = Some st"
    and "devices st d = Some dev"
    and "index_consistent md"
  shows "device_consistent dev"
proof (cases "s = fact_siteSlug f")
  case False
  with assms show ?thesis
    by (auto simp: updateMetadataForEntry_def Let_def index_consistent_def)
next
  case s: True
  show ?thesis
  proof (cases "d = fact_serialNo f")
    case False
    with assms s show ?thesis
      by (auto simp: updateMetadataForEntry_def Let_def index_consistent_def
          split: option.splits)
  next
    case True
    with assms s show ?thesis
      by (auto simp: updateMetadataForEntry_def Let_def device_consistent_def
          foldl_add_sum_list split: option.splits)
  qed
qed

lemma update_consistent:
  "index_consistent md \<Longrightarrow> index_consistent (updateMetadataForEntry le rel now md f)"
  unfolding index_consistent_def [of "updateMetadataForEntry le rel now md f"]
  using update_device_consistent by blast

lemma fresh_consistent: "index_consistent (fresh_metadata now)"
  by (simp add: index_consistent_def fresh_metadata_def)

text \<open>
  C6.  Starting from an index that satisfies the invariant (the fresh index does), after any
  sequence of \<^verbatim>\<open>updateMetadataForEntry\<close> calls every device of the index has
  \<open>totalEntries\<close> equal to the sum of \<open>entryCount\<close> over its \<open>dateRanges\<close>.
\<close>

theorem index_consistency:
  "index_consistent (fresh_metadata now0) \<and>
   (index_consistent md \<longrightarrow> index_consistent (update_all le rel md facts))"
proof
  show "index_consistent (fresh_metadata now0)"
    by (rule fresh_consistent)
  show "index_consistent md \<longrightarrow> index_consistent (update_all le rel md facts)"
    by (induction facts arbitrary: md) (auto simp: update_consistent)
qed

text \<open>The witness of C6: three updates of one device, the third replacing the first date's
  entry; the total is recomputed as the sum of the two counts that remain.\<close>

theorem index_consistency_witness:
  "index_consistent (fresh_metadata ''t0'') \<and>
   index_consistent
     (update_all str_le (\<lambda>b p. drop (Suc (length b)) p) (fresh_metadata ''t0'')
        [(''t1'', \<lparr>fact_siteSlug = ''s'', fact_serialNo = ''d'', fact_date = ''2025-08-31'',
                   fact_entryCount = 5, fact_filePath = ''/b/s/d/2025/08/31.json'',
                   fact_baseDir = Some ''/b''\<rparr>),
         (''t2'', \<lparr>fact_siteSlug = ''s'', fact_serialNo = ''d'', fact_date = ''2025-08-30'',
                   fact_entryCount = 7, fact_filePath = ''/b/s/d/2025/08/30.json'',
                   fact_baseDir = Some ''/b''\<rparr>),
         (''t3'', \<lparr>fact_siteSlug = ''s'', fact_serialNo = ''d'', fact_date = ''2025-08-31'',
                   fact_entryCount = 9, fact_filePath = ''/b/s/d/2025/08/31.json'',
                   fact_baseDir = Some ''/b''\<rparr>)])"
  using index_consistency [of "''t0''" "fresh_metadata ''t0''"]
  by blast

section \<open>Properties of loading the index\<close>

lemma findFiles_fresh: "findFilesForQuery toTime resolve (fresh_metadata now) q = []"
  by (simp add: findFilesForQuery_def fresh_metadata_def)

text \<open>
  C10.  \<^verbatim>\<open>loadMetadata\<close> always returns an index: the document's own when it is read and
  parsed, and the fresh empty index (no sites, version "1.0", the current time) when the
  document is absent or unreadable or is not JSON; the planner then finds no file in it.
\<close>

theorem loadMetadata_never_fails:
  "(\<exists>m. loadMetadata join readFile parse now baseDir = Inr m) \<and>
   (readFile (join baseDir ''metadata.json'') = None \<longrightarrow>
      loadMetadata join readFile parse now baseDir = Inr (fresh_metadata now)) \<and>
   (\<forall>content. readFile (join baseDir ''metadata.json'') = Some content \<longrightarrow>
      parse content = None \<longrightarrow>
      loadMetadata join readFile parse now baseDir = Inr (fresh_metadata now)) \<and>
   (\<forall>content m. readFile (join baseDir ''metadata.json'') = Some content \<longrightarrow>
      parse content = Some m \<longrightarrow>
      loadMetadata join readFile parse now baseDir = Inr m) \<and>
   fresh_metadata now = \<lparr>sites = Map.empty, indexVersion = ''1.0'', lastUpdated = now\<rparr> \<and>
   findFilesForQuery toTime resolve (fresh_metadata now) q = []"
  by (auto simp: loadMetadata_def Let_def findFiles_fresh [unfolded fresh_metadata_def]
      fresh_metadata_def split: option.splits)

text \<open>The witness of C10: a store whose index document is the text \<^verbatim>\<open>{"sites":\<close>, which is
  not JSON.\<close>

theorem loadMetadata_never_fails_witness:
  "loadMetadata (\<lambda>a b. a @ ''/'' @ b)
     (\<lambda>p. if p = ''/data/metadata.json'' then Some ''{\"sites\":'' else None)
     (\<lambda>c. None) ''2025-09-01T00:00:00.000Z'' ''/data''
   = Inr \<lparr>sites = Map.empty, indexVersion = ''1.0'', lastUpdated = ''2025-09-01T00:00:00.000Z''\<rparr>"
proof -
  let ?join = "\<lambda>a b. a @ ''/'' @ (b :: string)"
  let ?read = "\<lambda>p. if p = ''/data/metadata.json'' then Some ''{\"sites\":'' else None"
  let ?parse = "\<lambda>c :: string. (None :: metadata option)"
  have r: "?read (?join ''/data'' ''metadata.json'') = Some ''{\"sites\":''"
    by simp
  have p: "?parse ''{\"sites\":'' = None"
    by simp
  from loadMetadata_never_fails [of ?join ?read ?parse "''2025-09-01T00:00:00.000Z''" "''/data''"]
  have "loadMetadata ?join ?read ?parse ''2025-09-01T00:00:00.000Z'' ''/data''
        = Inr (fresh_metadata ''2025-09-01T00:00:00.000Z'')"
    using r p by blast
  then show ?thesis
    by (simp add: fresh_metadata_def)
qed

section \<open>Properties of the range query engine\<close>

lemma take_entries_count:
  "yielded (take_entries sc lim st es) - int (length (results (take_entries sc lim st es)))
     = yielded st - int (length (results st))"
  by (induction es arbitrary: st) auto

lemma scan_files_count:
  "yielded (scan_files rd sp pathOf sc lim st fs)
     - int (length (results (scan_files rd sp pathOf sc lim st fs)))
     = yielded st - int (length (results st))"
proof (induction fs arbitrary: st)
  case Nil
  show ?case by simp
next
  case (Cons f fs)
  show ?case
    using Cons.IH [of st] Cons.IH [of "take_entries sc lim st (entries_of sp (rd (pathOf f)))"]
      take_entries_count [of sc lim st "entries_of sp (rd (pathOf f))"]
    by (cases "rd (pathOf f)") auto
qed

text \<open>
  C2, as the code has it.  \<open>hasMore\<close> is true exactly when the returned page holds exactly
  \<open>limit\<close> records and the candidate file list is not empty; whether a further record
  remains is not looked at.
\<close>

theorem hasMore_full_page:
  "hasMore (queryFiles rd sp isAbs join files pg lim baseDir) =
     (int (length (data (queryFiles rd sp isAbs join files pg lim baseDir))) = lim \<and> files \<noteq> [])"
  using scan_files_count [of rd sp "query_path isAbs join baseDir" "pg * lim" lim
      "\<lparr>results = [], skipped = 0, yielded = 0\<rparr>" files]
  by (auto simp: queryFiles_def Let_def)

text \<open>One file of two records, page 0 of size 2: the page is exactly full, it holds every
  record there is, and \<open>hasMore\<close> is true.\<close>

theorem hasMore_counterexample:
  "hasMore (queryFiles (\<lambda>p. ArrayData [1, 2 :: nat]) (\<lambda>h e. e) (\<lambda>p. True) (\<lambda>a b. a @ b)
      [\<lparr>ref_path = ''/d/30.json'', ref_date = ''2025-08-30'', ref_entryCount = 2\<rparr>] 0 2 None) \<and>
   data (queryFiles (\<lambda>p. ArrayData [1, 2 :: nat]) (\<lambda>h e. e) (\<lambda>p. True) (\<lambda>a b. a @ b)
      [\<lparr>ref_path = ''/d/30.json'', ref_date = ''2025-08-30'', ref_entryCount = 2\<rparr>] 0 2 None)
     = [1, 2] \<and>
   all_entries (\<lambda>p. ArrayData [1, 2 :: nat]) (\<lambda>h e. e)
      (query_path (\<lambda>p. True) (\<lambda>a b. a @ b) None)
      [\<lparr>ref_path = ''/d/30.json'', ref_date = ''2025-08-30'', ref_entryCount = 2\<rparr>] = [1, 2]"
  by (simp add: queryFiles_def all_entries_def)

section \<open>Properties of the partitioned store writer\<close>

lemma merge_records_append:
  "merge_records acc (xs @ ys) = merge_records (merge_records acc xs) ys"
  by (induction xs arbitrary: acc) auto

lemma merge_records_prefix: "\<exists>zs. merge_records acc xs = acc @ zs \<and> set zs \<subseteq> set xs"
proof (induction xs arbitrary: acc)
  case Nil
  show ?case by simp
next
  case (Cons x xs)
  show ?case
  proof (cases "truthy (timestamp x) \<and> timestamp x \<notin> set (map timestamp acc)")
    case True
    from Cons [of "acc @ [x]"] obtain zs where
      "merge_records (acc @ [x]) xs = (acc @ [x]) @ zs" "set zs \<subseteq> set xs" by blast
    with True show ?thesis by (intro exI [of _ "x # zs"]) auto
  next
    case False
    from Cons [of acc] obtain zs where
      "merge_records acc xs = acc @ zs" "set zs \<subseteq> set xs" by blast
    with False show ?thesis by (intro exI [of _ zs]) auto
  qed
qed

lemma merge_records_set: "set (merge_records acc xs) \<subseteq> set acc \<union> set xs"
  using merge_records_prefix [of acc xs] by auto

lemma merge_records_distinct:
  "distinct (map timestamp acc) \<Longrightarrow> distinct (map timestamp (merge_records acc xs))"
  by (induction xs arbitrary: acc) auto

lemma merge_records_truthy:
  "\<forall>r\<in>set acc. truthy (timestamp r) \<Longrightarrow> \<forall>r\<in>set (merge_records acc xs). truthy (timestamp r)"
proof (induction xs arbitrary: acc)
  case Nil
  then show ?case by simp
next
  case (Cons x xs)
  show ?case
  proof (cases "truthy (timestamp x) \<and> timestamp x \<notin> set (map timestamp acc)")
    case True
    then have "\<forall>r\<in>set (acc @ [x]). truthy (timestamp r)"
      using Cons.prems by simp
    from Cons.IH [OF this] True show ?thesis by simp
  next
    case False
    from Cons.IH [OF Cons.prems] False show ?thesis by auto
  qed
qed

lemma merge_records_keys:
  "set (map timestamp (merge_records acc xs)) =
     set (map timestamp acc) \<union> {k \<in> set (map timestamp xs). truthy k}"
  by (induction xs arbitrary: acc) auto

lemma merge_records_absorb:
  "\<forall>r\<in>set xs. truthy (timestamp r) \<longrightarrow> timestamp r \<in> set (map timestamp acc) \<Longrightarrow>
   merge_records acc xs = acc"
  by (induction xs arbitrary: acc) auto

lemma merge_records_self:
  "distinct (map timestamp xs) \<Longrightarrow> \<forall>r\<in>set xs. truthy (timestamp r) \<Longrightarrow>
   set (map timestamp acc) \<inter> set (map timestamp xs) = {} \<Longrightarrow>
   merge_records acc xs = acc @ xs"
  by (induction xs arbitrary: acc) auto

lemma merge_records_first:
  "find (\<lambda>x. timestamp x = k) xs = Some a \<Longrightarrow> truthy k \<Longrightarrow> k \<notin> set (map timestamp acc) \<Longrightarrow>
   a \<in> set (merge_records acc xs)"
proof (induction xs arbitrary: acc)
  case Nil
  then show ?case by simp
next
  case (Cons x xs)
  show ?case
  proof (cases "timestamp x = k")
    case True
    with Cons.prems have "a = x" by simp
    moreover have "x \<in> set (merge_records (acc @ [x]) xs)"
      using merge_records_prefix [of "acc @ [x]" xs] by auto
    ultimately show ?thesis using True Cons.prems by simp
  next
    case False
    with Cons.prems have f: "find (\<lambda>x. timestamp x = k) xs = Some a" by simp
    show ?thesis
      using Cons.IH [OF f Cons.prems(2), of "acc @ [x]"] Cons.IH [OF f Cons.prems(2), of acc]
        Cons.prems(3) False
      by auto
  qed
qed

lemma digit_not_dash: "is_digit c \<Longrightarrow> c \<noteq> CHR ''-''"
  by (auto simp: is_digit_def)

lemma length_ten:
  assumes "length d = 10"
  obtains c0 c1 c2 c3 c4 c5 c6 c7 c8 c9 where
    "d = [c0, c1, c2, c3, c4, c5, c6, c7, c8, c9 :: 'a]"
proof -
  from assms obtain c0 d1 where 0: "d = c0 # d1" "length d1 = 9" by (cases d) auto
  then obtain c1 d2 where 1: "d1 = c1 # d2" "length d2 = 8" by (cases d1) auto
  then obtain c2 d3 where 2: "d2 = c2 # d3" "length d3 = 7" by (cases d2) auto
  then obtain c3 d4 where 3: "d3 = c3 # d4" "length d4 = 6" by (cases d3) auto
  then obtain c4 d5 where 4: "d4 = c4 # d5" "length d5 = 5" by (cases d4) auto
  then obtain c5 d6 where 5: "d5 = c5 # d6" "length d6 = 4" by (cases d5) auto
  then obtain c6 d7 where 6: "d6 = c6 # d7" "length d7 = 3" by (cases d6) auto
  then obtain c7 d8 where 7: "d7 = c7 # d8" "length d8 = 2" by (cases d7) auto
  then obtain c8 d9 where 8: "d8 = c8 # d9" "length d9 = 1" by (cases d8) auto
  then obtain c9 where 9: "d9 = [c9]" by (cases d9) auto
  show thesis
    using that [of c0 c1 c2 c3 c4 c5 c6 c7 c8 c9] 0 1 2 3 4 5 6 7 8 9 by simp
qed

lemma split_date:
  assumes "is_date d"
  shows "split_on CHR ''-'' d = [take 4 d, take 2 (drop 5 d), drop 8 d]"
proof -
  from assms have len: "length d = 10" and m: "matches_date d"
    by (simp_all add: is_date_def)
  from len obtain c0 c1 c2 c3 c4 c5 c6 c7 c8 c9 where
    d: "d = [c0, c1, c2, c3, c4, c5, c6, c7, c8, c9]"
    by (rule length_ten)
  from m show ?thesis
    unfolding d matches_date_def by (simp add: digit_not_dash)
qed

lemma extract_is_date: "extractDateFromTimestamp ts = Some d \<Longrightarrow> is_date d"
  by (auto simp: extractDateFromTimestamp_def is_date_def matches_date_def drop_take
      split: option.splits if_splits)

lemma partition_path_inj:
  assumes "is_date d1" "is_date d2"
    and "partition_path b s g d1 = partition_path b s g d2"
  shows "d1 = d2"
proof -
  from assms(1) have len1: "length d1 = 10" and m1: "matches_date d1"
    by (simp_all add: is_date_def)
  from assms(2) have len2: "length d2 = 10" and m2: "matches_date d2"
    by (simp_all add: is_date_def)
  from len1 obtain c0 c1 c2 c3 c4 c5 c6 c7 c8 c9 where
    d1: "d1 = [c0, c1, c2, c3, c4, c5, c6, c7, c8, c9]"
    by (rule length_ten)
  from len2 obtain e0 e1 e2 e3 e4 e5 e6 e7 e8 e9 where
    d2: "d2 = [e0, e1, e2, e3, e4, e5, e6, e7, e8, e9]"
    by (rule length_ten)
  from m1 m2 assms(3) show ?thesis
    unfolding d1 d2 matches_date_def partition_path_def target_path_def by simp
qed

lemma extract_truthy: "extractDateFromTimestamp ts = Some d \<Longrightarrow> truthy ts"
  by (auto simp: extractDateFromTimestamp_def truthy_def split: option.splits if_splits)

lemma group_push_keys:
  "map fst (group_push d r g) = (if d \<in> set (map fst g) then map fst g else map fst g @ [d])"
proof (induction g)
  case Nil
  show ?case by simp
next
  case (Cons kv g)
  obtain k rs where kv: "kv = (k, rs)" by (cases kv)
  show ?case
    using Cons unfolding kv by (cases "k = d") auto
qed

lemma group_push_map_of:
  "map_of (group_push d r g) =
     (map_of g)(d \<mapsto> (case map_of g d of None \<Rightarrow> [r] | Some rs \<Rightarrow> rs @ [r]))"
  by (induction g) (auto simp: fun_eq_iff)

lemma group_by_date_distinct:
  "distinct (map fst g) \<Longrightarrow> distinct (map fst (group_by_date g rs))"
proof (induction rs arbitrary: g)
  case Nil
  then show ?case by simp
next
  case (Cons r rs)
  show ?case
  proof (cases "extractDateFromTimestamp (timestamp r)")
    case None
    with Cons show ?thesis by simp
  next
    case (Some d)
    have "distinct (map fst (group_push d r g))"
      using Cons.prems by (simp add: group_push_keys)
    from Cons.IH [OF this] Some show ?thesis by simp
  qed
qed

lemma group_by_date_dates:
  "\<forall>d\<in>set (map fst g). is_date d \<Longrightarrow> \<forall>d\<in>set (map fst (group_by_date g rs)). is_date d"
proof (induction rs arbitrary: g)
  case Nil
  then show ?case by simp
next
  case (Cons r rs)
  show ?case
  proof (cases "extractDateFromTimestamp (timestamp r)")
    case None
    with Cons show ?thesis by simp
  next
    case (Some d)
    have "\<forall>d\<in>set (map fst (group_push d r g)). is_date d"
      using Cons.prems Some by (auto simp: group_push_keys dest: extract_is_date)
    from Cons.IH [OF this] Some show ?thesis by simp
  qed
qed

lemma group_by_date_map_of:
  "map_of (group_by_date g rs) d =
     (if records_on d rs = [] then map_of g d
      else Some ((case map_of g d of None \<Rightarrow> [] | Some old \<Rightarrow> old) @ records_on d rs))"
proof (induction rs arbitrary: g)
  case Nil
  show ?case by (simp add: records_on_def)
next
  case (Cons r rs)
  show ?case
  proof (cases "extractDateFromTimestamp (timestamp r)")
    case None
    with Cons [of g] show ?thesis by (simp add: records_on_def)
  next
    case (Some d')
    with Cons [of "group_push d' r g"] show ?thesis
      by (auto simp: records_on_def group_push_map_of split: option.splits)
  qed
qed

lemma group_by_date_filter:
  "group_by_date g (filter has_date rs) = group_by_date g rs"
  by (induction rs arbitrary: g) (auto simp: has_date_def split: option.splits)

lemma existing_records_upd:
  "p \<noteq> q \<Longrightarrow> existing_records (fs(q \<mapsto> v)) p = existing_records fs p"
  by (simp add: existing_records_def)

lemma write_groups_eq:
  "distinct (map fst g) \<Longrightarrow> \<forall>d\<in>set (map fst g). is_date d \<Longrightarrow>
   write_groups le b s ser seg fs g =
     Inr (store_after le b s seg fs g, files_after le b s seg fs g,
          events_after le b s ser seg fs g)"
proof (induction g arbitrary: fs)
  case Nil
  show ?case
    by (simp add: store_after_def files_after_def events_after_def)
next
  case (Cons kv g)
  obtain d rs where kv: "kv = (d, rs)" by (cases kv)
  let ?p = "partition_path b s seg d"
  let ?fs1 = "fs(?p \<mapsto> ArrayData (merged_at le fs ?p rs))"
  have d: "is_date d" and dg: "d \<notin> set (map fst g)"
    and dist: "distinct (map fst g)" and dates: "\<forall>d\<in>set (map fst g). is_date d"
    using Cons.prems by (auto simp: kv)
  have other: "partition_path b s seg d' \<noteq> ?p" if "(d', rs') \<in> set g" for d' rs'
  proof -
    from that have "d' \<in> set (map fst g)" by force
    with d dg dates partition_path_inj [of d' d b s seg] show ?thesis by auto
  qed
  have nofind: "find (\<lambda>(d', rs'). partition_path b s seg d' = ?p) g = None"
    using other by (auto simp: find_None_iff)
  have m: "merged_at le ?fs1 (partition_path b s seg d') rs'' =
           merged_at le fs (partition_path b s seg d') rs''"
    if "(d', rs') \<in> set g" for d' rs' rs''
    using other [OF that] by (simp add: merged_at_def existing_records_upd)
  have files: "files_after le b s seg ?fs1 g = files_after le b s seg fs g"
    unfolding files_after_def using m by auto
  have events: "events_after le b s ser seg ?fs1 g = events_after le b s ser seg fs g"
    unfolding events_after_def using m by auto
  have store: "store_after le b s seg ?fs1 g = store_after le b s seg fs ((d, rs) # g)"
  proof
    fix p
    show "store_after le b s seg ?fs1 g p = store_after le b s seg fs ((d, rs) # g) p"
    proof (cases "p = ?p")
      case True
      then show ?thesis
        using nofind by (simp add: store_after_def)
    next
      case False
      show ?thesis
      proof (cases "find (\<lambda>(d', rs'). partition_path b s seg d' = p) g")
        case None
        with False show ?thesis by (auto simp: store_after_def)
      next
        case (Some kv')
        obtain d' rs' where kv': "kv' = (d', rs')" by (cases kv')
        from Some have "partition_path b s seg d' = p"
          unfolding kv' by (auto dest: find_Some_iff [THEN iffD1])
        with False Some show ?thesis
          unfolding kv' by (auto simp: store_after_def merged_at_def existing_records_upd)
      qed
    qed
  qed
  have ih: "write_groups le b s ser seg ?fs1 g =
          Inr (store_after le b s seg ?fs1 g, files_after le b s seg ?fs1 g,
               events_after le b s ser seg ?fs1 g)"
    by (rule Cons.IH [OF dist dates])
  have fcons: "files_after le b s seg fs ((d, rs) # g) =
      \<lparr>wf_path = ?p, wf_date = d, wf_entryCount = int (length (merged_at le fs ?p rs))\<rparr>
        # files_after le b s seg fs g"
    by (simp add: files_after_def)
  have econs: "events_after le b s ser seg fs ((d, rs) # g) =
      \<lparr>ev_siteSlug = s, ev_serialNo = ser, ev_date = d,
       ev_entryCount = int (length (merged_at le fs ?p rs)), ev_filePath = ?p\<rparr>
        # events_after le b s ser seg fs g"
    by (simp add: events_after_def)
  have step: "write_groups le b s ser seg fs ((d, rs) # g) =
      (case write_groups le b s ser seg ?fs1 g of
         Inl e \<Rightarrow> Inl e
       | Inr (fs'', fls, evs) \<Rightarrow>
           Inr (fs'',
                \<lparr>wf_path = ?p, wf_date = d,
                 wf_entryCount = int (length (merged_at le fs ?p rs))\<rparr> # fls,
                \<lparr>ev_siteSlug = s, ev_serialNo = ser, ev_date = d,
                 ev_entryCount = int (length (merged_at le fs ?p rs)), ev_filePath = ?p\<rparr>
                  # evs))"
    by (simp add: split_date [OF d] Let_def partition_path_def merged_at_def
        split: sum.splits prod.splits)
  show ?case
    unfolding kv step ih fcons econs by (simp add: store files events)
qed

lemma mergedRecords_distinct: "distinct (map timestamp (mergedRecords le A R))"
proof -
  have "distinct (map timestamp (merge_records [] (A @ R)))"
    by (rule merge_records_distinct) simp
  moreover have "mset (map timestamp (mergedRecords le A R)) =
                 mset (map timestamp (merge_records [] (A @ R)))"
    by (simp add: mergedRecords_def mset_sort_by)
  ultimately show ?thesis
    by (metis mset_eq_imp_distinct_iff)
qed

lemma mergedRecords_truthy: "\<forall>r\<in>set (mergedRecords le A R). truthy (timestamp r)"
  using merge_records_truthy [of "[]" "A @ R"]
  by (simp add: mergedRecords_def set_sort_by)

lemma mergedRecords_keys:
  "set (map timestamp (mergedRecords le A R)) = {k \<in> set (map timestamp (A @ R)). truthy k}"
  using merge_records_keys [of "[]" "A @ R"]
  by (simp add: mergedRecords_def set_sort_by)

lemma mergedRecords_sorted:
  "total_preorder le \<Longrightarrow> sorted_wrt (\<lambda>a b. le (stamp a) (stamp b)) (mergedRecords le A R)"
  unfolding mergedRecords_def by (rule sorted_sort_by) (rule total_preorder_key)

lemma mergedRecords_idem:
  assumes "total_preorder le"
  shows "mergedRecords le (mergedRecords le A R) R = mergedRecords le A R"
proof -
  let ?M = "mergedRecords le A R"
  have "merge_records [] ?M = [] @ ?M"
    by (rule merge_records_self) (simp_all add: mergedRecords_distinct mergedRecords_truthy)
  moreover have "merge_records ?M R = ?M"
    by (rule merge_records_absorb) (use mergedRecords_keys [of le A R] in auto)
  ultimately have "merge_records [] (?M @ R) = ?M"
    by (simp add: merge_records_append)
  then have "mergedRecords le ?M R = sort_by (\<lambda>a b. le (stamp a) (stamp b)) ?M"
    by (simp add: mergedRecords_def)
  also have "\<dots> = ?M"
    by (rule sort_by_sorted) (rule mergedRecords_sorted [OF assms])
  finally show ?thesis .
qed

lemma find_append_Some: "find P xs = Some a \<Longrightarrow> find P (xs @ ys) = Some a"
  by (induction xs) (auto split: if_splits)

lemma mergedRecords_first:
  assumes "find (\<lambda>x. timestamp x = k) A = Some a" and "truthy k"
  shows "a \<in> set (mergedRecords le A R) \<and>
         (\<forall>m\<in>set (mergedRecords le A R). timestamp m = k \<longrightarrow> m = a)"
proof -
  from assms(1) have f: "find (\<lambda>x. timestamp x = k) (A @ R) = Some a"
    by (rule find_append_Some)
  have a: "a \<in> set (mergedRecords le A R)"
    using merge_records_first [OF f assms(2), of "[]"]
    by (simp add: mergedRecords_def set_sort_by)
  from assms(1) have ka: "timestamp a = k"
    by (auto simp: find_Some_iff)
  have "m = a" if "m \<in> set (mergedRecords le A R)" "timestamp m = k" for m
    using mergedRecords_distinct [of le A R] a that ka
    by (metis distinct_map inj_onD)
  with a show ?thesis by blast
qed

lemma find_group:
  assumes "distinct (map fst g)" and "\<forall>d\<in>set (map fst g). is_date d" and "(d, rs) \<in> set g"
  shows "find (\<lambda>(d', rs'). partition_path b s seg d' = partition_path b s seg d) g = Some (d, rs)"
  using assms
proof (induction g)
  case Nil
  then show ?case by simp
next
  case (Cons kv g)
  obtain d0 rs0 where kv: "kv = (d0, rs0)" by (cases kv)
  show ?case
  proof (cases "d0 = d")
    case True
    with Cons.prems kv have "rs0 = rs"
      by (auto simp: image_iff)
    with True kv show ?thesis by simp
  next
    case False
    with Cons.prems kv have in_g: "(d, rs) \<in> set g" by auto
    then have "d \<in> set (map fst g)" by force
    with Cons.prems kv have "is_date d" "is_date d0" by auto
    with False have "partition_path b s seg d0 \<noteq> partition_path b s seg d"
      using partition_path_inj by blast
    with Cons.IH in_g Cons.prems kv show ?thesis by simp
  qed
qed

lemma store_after_group:
  assumes "distinct (map fst g)" and "\<forall>d\<in>set (map fst g). is_date d" and "(d, rs) \<in> set g"
  shows "store_after le b s seg fs g (partition_path b s seg d) =
           Some (ArrayData (merged_at le fs (partition_path b s seg d) rs))"
  by (simp add: store_after_def find_group [OF assms])

lemma store_after_idem:
  assumes "total_preorder le" "distinct (map fst g)" "\<forall>d\<in>set (map fst g). is_date d"
  shows "store_after le b s seg (store_after le b s seg fs g) g = store_after le b s seg fs g"
    and "files_after le b s seg (store_after le b s seg fs g) g = files_after le b s seg fs g"
    and "events_after le b s ser seg (store_after le b s seg fs g) g
           = events_after le b s ser seg fs g"
proof -
  let ?fs1 = "store_after le b s seg fs g"
  have m: "merged_at le ?fs1 (partition_path b s seg d) rs
             = merged_at le fs (partition_path b s seg d) rs"
    if "(d, rs) \<in> set g" for d rs
  proof -
    have "existing_records ?fs1 (partition_path b s seg d)
            = merged_at le fs (partition_path b s seg d) rs"
      by (simp add: existing_records_def store_after_group [OF assms(2,3) that])
    then show ?thesis
      by (simp add: merged_at_def mergedRecords_idem [OF assms(1)])
  qed
  show "files_after le b s seg ?fs1 g = files_after le b s seg fs g"
    unfolding files_after_def using m by auto
  show "events_after le b s ser seg ?fs1 g = events_after le b s ser seg fs g"
    unfolding events_after_def using m by auto
  show "store_after le b s seg ?fs1 g = ?fs1"
  proof
    fix p
    show "store_after le b s seg ?fs1 g p = ?fs1 p"
    proof (cases "find (\<lambda>(d, rs). partition_path b s seg d = p) g")
      case None
      then show ?thesis by (simp add: store_after_def)
    next
      case (Some kv)
      obtain d rs where kv: "kv = (d, rs)" by (cases kv)
      from Some have p: "partition_path b s seg d = p" and in_g: "(d, rs) \<in> set g"
        unfolding kv by (auto simp: find_Some_iff in_set_conv_nth)
      have "store_after le b s seg ?fs1 g p = Some (ArrayData (merged_at le ?fs1 p rs))"
        using Some kv by (simp add: store_after_def)
      also have "\<dots> = Some (ArrayData (merged_at le fs p rs))"
        using m [OF in_g] p by simp
      also have "\<dots> = ?fs1 p"
        using Some kv by (simp add: store_after_def)
      finally show ?thesis .
    qed
  qed
qed

lemma group_keys_ok:
  "distinct (map fst (group_by_date [] rs))" "\<forall>d\<in>set (map fst (group_by_date [] rs)). is_date d"
  using group_by_date_distinct [of "[]" rs] group_by_date_dates [of "[]" rs] by simp_all

lemma writer_eq:
  "writeThermostatHistoryByDate le b s fs entry =
     (if \<not> truthy (serialNo entry) \<or> history_of entry = [] then Inr (fs, None, [])
      else Inr (store_after le b s (segment_of entry) fs (group_by_date [] (history_of entry)),
                Some (files_after le b s (segment_of entry) fs
                        (group_by_date [] (history_of entry))),
                events_after le b s (the (serialNo entry)) (segment_of entry) fs
                  (group_by_date [] (history_of entry))))"
  by (simp add: writeThermostatHistoryByDate_def Let_def history_of_def segment_of_def
      write_groups_eq [OF group_keys_ok])

lemma group_member:
  assumes "r \<in> set rs" and "extractDateFromTimestamp (timestamp r) = Some d"
  shows "(d, records_on d rs) \<in> set (group_by_date [] rs)"
proof -
  from assms have ne: "records_on d rs \<noteq> []"
    by (auto simp: records_on_def filter_empty_conv)
  have "map_of (group_by_date [] rs) d = Some (records_on d rs)"
    using ne by (simp add: group_by_date_map_of)
  then show ?thesis by (rule map_of_SomeD)
qed

text \<open>
  C4.  Let the comparator be a total preorder.  When a record of the batch has a timestamp
  that the stored partition of its date already holds, the partition written back contains
  the stored record \<open>a\<close> (the first stored one with that timestamp), no other record with
  that timestamp, and is sorted ascending by timestamp.
\<close>

theorem first_write_wins:
  assumes "total_preorder le"
    and "truthy (serialNo entry)"
    and "History entry = Some B"
    and "r \<in> set B"
    and "extractDateFromTimestamp (timestamp r) = Some d"
    and "find (\<lambda>x. timestamp x = timestamp r)
           (existing_records fs (partition_path b s (segment_of entry) d)) = Some a"
  shows "\<exists>fs' files events M.
           writeThermostatHistoryByDate le b s fs entry = Inr (fs', files, events) \<and>
           fs' (partition_path b s (segment_of entry) d) = Some (ArrayData M) \<and>
           a \<in> set M \<and> (\<forall>m\<in>set M. timestamp m = timestamp r \<longrightarrow> m = a) \<and>
           sorted_wrt (\<lambda>x y. le (stamp x) (stamp y)) M"
proof -
  let ?g = "group_by_date [] (history_of entry)"
  let ?p = "partition_path b s (segment_of entry) d"
  let ?M = "merged_at le fs ?p (records_on d B)"
  have h: "history_of entry = B"
    using assms(3) by (simp add: history_of_def)
  with assms(4) have ne: "history_of entry \<noteq> []" by auto
  have "(d, records_on d B) \<in> set ?g"
    using group_member [OF assms(4,5)] h by simp
  then have "store_after le b s (segment_of entry) fs ?g ?p = Some (ArrayData ?M)"
    by (rule store_after_group [OF group_keys_ok])
  moreover have "a \<in> set ?M \<and> (\<forall>m\<in>set ?M. timestamp m = timestamp r \<longrightarrow> m = a)"
    unfolding merged_at_def
    by (rule mergedRecords_first [OF assms(6) extract_truthy [OF assms(5)]])
  moreover have "sorted_wrt (\<lambda>x y. le (stamp x) (stamp y)) ?M"
    unfolding merged_at_def by (rule mergedRecords_sorted [OF assms(1)])
  ultimately show ?thesis
    using assms(2) ne by (simp add: writer_eq)
qed

text \<open>
  C5.  Let the comparator be a total preorder.  From any store, the write of an entry returns
  a store and its reports; writing the same entry again to that store returns the same
  store (every file as after the first write) and the same reports, so the same
  \<open>entryCount\<close> for every date.
\<close>

theorem merge_write_idempotent:
  assumes "total_preorder le"
  shows "\<exists>fs1 files events.
           writeThermostatHistoryByDate le b s fs entry = Inr (fs1, files, events) \<and>
           writeThermostatHistoryByDate le b s fs1 entry = Inr (fs1, files, events)"
  by (simp add: writer_eq store_after_idem [OF assms group_keys_ok])

lemma store_after_Nil: "store_after le b s seg fs [] = fs"
  by (simp add: store_after_def)

lemma store_after_subset:
  assumes "r \<in> set (existing_records (store_after le b s seg fs (group_by_date [] hist)) p)"
    and "\<not> has_date r"
  shows "r \<in> set (existing_records fs p)"
proof (cases "find (\<lambda>(d, rs). partition_path b s seg d = p) (group_by_date [] hist)")
  case None
  with assms(1) show ?thesis
    by (simp add: existing_records_def store_after_def)
next
  case (Some kv)
  obtain d rs where kv: "kv = (d, rs)" by (cases kv)
  from Some have in_g: "(d, rs) \<in> set (group_by_date [] hist)"
    unfolding kv by (auto simp: find_Some_iff in_set_conv_nth)
  have "map_of (group_by_date [] hist) d = Some rs"
    using in_g group_keys_ok(1) [of hist] by simp
  then have rs: "rs = records_on d hist"
    by (auto simp: group_by_date_map_of split: if_splits)
  from assms(1) Some have "r \<in> set (merged_at le fs p rs)"
    by (simp add: existing_records_def store_after_def kv)
  then have "r \<in> set (existing_records fs p) \<union> set rs"
    using merge_records_set [of "[]" "existing_records fs p @ rs"]
    by (auto simp: merged_at_def mergedRecords_def set_sort_by)
  moreover have "r \<notin> set rs"
    using assms(2) by (auto simp: rs records_on_def has_date_def)
  ultimately show ?thesis by simp
qed

text \<open>
  C9.  The write never raises.  An entry without a serial number, or whose history is empty
  or no array, changes no file, returns \<^verbatim>\<open>null\<close> and reports nothing.  Otherwise the store
  and the reports are those of the same entry without its records that have no date, and such
  a record is in a file afterwards only where it was before.
\<close>

theorem undated_records_dropped:
  "(\<exists>res. writeThermostatHistoryByDate le b s fs entry = Inr res) \<and>
   (\<not> truthy (serialNo entry) \<or> history_of entry = [] \<longrightarrow>
      writeThermostatHistoryByDate le b s fs entry = Inr (fs, None, [])) \<and>
   (\<forall>fs' files events hist.
      writeThermostatHistoryByDate le b s fs entry = Inr (fs', files, events) \<longrightarrow>
      History entry = Some hist \<longrightarrow>
        (\<exists>files'. writeThermostatHistoryByDate le b s fs
                     (entry\<lparr>History := Some (filter has_date hist)\<rparr>) = Inr (fs', files', events) \<and>
                   written_list files' = written_list files) \<and>
        (\<forall>r\<in>set hist. \<not> has_date r \<longrightarrow>
           (\<forall>p. r \<in> set (existing_records fs' p) \<longrightarrow> r \<in> set (existing_records fs p))))"
proof (intro conjI allI impI ballI)
  show "\<exists>res. writeThermostatHistoryByDate le b s fs entry = Inr res"
    by (simp add: writer_eq)
next
  assume "\<not> truthy (serialNo entry) \<or> history_of entry = []"
  then show "writeThermostatHistoryByDate le b s fs entry = Inr (fs, None, [])"
    by (auto simp: writer_eq)
next
  fix fs' files events hist
  assume w: "writeThermostatHistoryByDate le b s fs entry = Inr (fs', files, events)"
    and h: "History entry = Some hist"
  let ?e = "entry\<lparr>History := Some (filter has_date hist)\<rparr>"
  have h1: "history_of entry = hist" and h2: "history_of ?e = filter has_date hist"
    and seg: "segment_of ?e = segment_of entry"
    using h by (simp_all add: history_of_def segment_of_def)
  have g: "group_by_date [] (filter has_date hist) = group_by_date [] hist"
    by (rule group_by_date_filter)
  have g0: "group_by_date [] hist = []" if "filter has_date hist = []"
    using g that by simp
  show "\<exists>files'. writeThermostatHistoryByDate le b s fs ?e = Inr (fs', files', events) \<and>
                  written_list files' = written_list files"
    using w
    by (auto simp: writer_eq h1 h2 seg g g0 store_after_Nil files_after_def events_after_def
        written_list_def split: if_splits)
next
  fix fs' files events hist r p
  assume w: "writeThermostatHistoryByDate le b s fs entry = Inr (fs', files, events)"
    and h: "History entry = Some hist"
    and r: "r \<in> set hist" "\<not> has_date r" "r \<in> set (existing_records fs' p)"
  have h1: "history_of entry = hist"
    using h by (simp add: history_of_def)
  from w r(3) show "r \<in> set (existing_records fs p)"
    using store_after_subset [OF _ r(2), of le b s "segment_of entry" fs hist p]
    by (auto simp: writer_eq h1 split: if_splits)
qed

subsection \<open>The example store and entry\<close>

lemma example_segment: "segment_of example_entry = ''A1''"
  by code_simp

lemma example_existing:
  "existing_records example_store (partition_path ''/b'' ''site'' (segment_of example_entry) ''2025-08-30'')
     = [\<lparr>timestamp = Some ''2025-08-30T00:01'', payload = ''stored 1''\<rparr>,
        \<lparr>timestamp = Some ''2025-08-30T00:02'', payload = ''stored 2''\<rparr>]"
  by code_simp

text \<open>The witness of C4: the stored record of 00:02 stays, the new one with that timestamp is
  not written, and the new record of 00:00 is sorted in front.\<close>

theorem first_write_wins_witness:
  "(\<exists>fs' files events M.
      writeThermostatHistoryByDate str_le ''/b'' ''site'' example_store example_entry
        = Inr (fs', files, events) \<and>
      fs' (partition_path ''/b'' ''site'' (segment_of example_entry) ''2025-08-30'')
        = Some (ArrayData M) \<and>
      \<lparr>timestamp = Some ''2025-08-30T00:02'', payload = ''stored 2''\<rparr> \<in> set M \<and>
      (\<forall>m\<in>set M. timestamp m
           = timestamp \<lparr>timestamp = Some ''2025-08-30T00:02'', payload = ''new 2''\<rparr> \<longrightarrow>
         m = \<lparr>timestamp = Some ''2025-08-30T00:02'', payload = ''stored 2''\<rparr>) \<and>
      sorted_wrt (\<lambda>x y. str_le (stamp x) (stamp y)) M) \<and>
   (case writeThermostatHistoryByDate str_le ''/b'' ''site'' example_store example_entry of
      Inl e \<Rightarrow> False
    | Inr (fs', files, events) \<Rightarrow>
        fs' ''/b/site/A1/2025/08/30.json'' =
          Some (ArrayData [\<lparr>timestamp = Some ''2025-08-30T00:00'', payload = ''new 0''\<rparr>,
                           \<lparr>timestamp = Some ''2025-08-30T00:01'', payload = ''stored 1''\<rparr>,
                           \<lparr>timestamp = Some ''2025-08-30T00:02'', payload = ''stored 2''\<rparr>]))"
proof
  let ?r = "\<lparr>timestamp = Some ''2025-08-30T00:02'', payload = ''new 2''\<rparr>"
  let ?B = "[?r,
             \<lparr>timestamp = Some ''2025-08-30T00:00'', payload = ''new 0''\<rparr>,
             \<lparr>timestamp = Some ''2025-08-31T00:00'', payload = ''next day''\<rparr>,
             \<lparr>timestamp = Some ''n/a'', payload = ''undated''\<rparr>,
             \<lparr>timestamp = None, payload = ''no timestamp''\<rparr>]"
  have 1: "truthy (serialNo example_entry)" by code_simp
  have 2: "History example_entry = Some ?B" by (simp add: example_entry_def)
  have 3: "?r \<in> set ?B" by simp
  have 4: "extractDateFromTimestamp (timestamp ?r) = Some ''2025-08-30''" by code_simp
  have 5: "find (\<lambda>x. timestamp x = timestamp ?r)
             (existing_records example_store
               (partition_path ''/b'' ''site'' (segment_of example_entry) ''2025-08-30''))
           = Some \<lparr>timestamp = Some ''2025-08-30T00:02'', payload = ''stored 2''\<rparr>"
    unfolding example_existing by simp
  show "\<exists>fs' files events M.
      writeThermostatHistoryByDate str_le ''/b'' ''site'' example_store example_entry
        = Inr (fs', files, events) \<and>
      fs' (partition_path ''/b'' ''site'' (segment_of example_entry) ''2025-08-30'')
        = Some (ArrayData M) \<and>
      \<lparr>timestamp = Some ''2025-08-30T00:02'', payload = ''stored 2''\<rparr> \<in> set M \<and>
      (\<forall>m\<in>set M. timestamp m = timestamp ?r \<longrightarrow>
         m = \<lparr>timestamp = Some ''2025-08-30T00:02'', payload = ''stored 2''\<rparr>) \<and>
      sorted_wrt (\<lambda>x y. str_le (stamp x) (stamp y)) M"
    by (rule first_write_wins [OF total_preorder_str_le 1 2 3 4 5])
  show "case writeThermostatHistoryByDate str_le ''/b'' ''site'' example_store example_entry of
      Inl e \<Rightarrow> False
    | Inr (fs', files, events) \<Rightarrow>
        fs' ''/b/site/A1/2025/08/30.json'' =
          Some (ArrayData [\<lparr>timestamp = Some ''2025-08-30T00:00'', payload = ''new 0''\<rparr>,
                           \<lparr>timestamp = Some ''2025-08-30T00:01'', payload = ''stored 1''\<rparr>,
                           \<lparr>timestamp = Some ''2025-08-30T00:02'', payload = ''stored 2''\<rparr>])"
    by code_simp
qed

text \<open>The witness of C5: both writes report three records for 30 August and one for
  31 August, and leave the same two files.\<close>

theorem merge_write_idempotent_witness:
  "(\<exists>fs1 files events.
      writeThermostatHistoryByDate str_le ''/b'' ''site'' example_store example_entry
        = Inr (fs1, files, events) \<and>
      writeThermostatHistoryByDate str_le ''/b'' ''site'' fs1 example_entry
        = Inr (fs1, files, events)) \<and>
   (case writeThermostatHistoryByDate str_le ''/b'' ''site'' example_store example_entry of
      Inl e \<Rightarrow> False
    | Inr (fs1, files, events) \<Rightarrow>
        map wf_entryCount (written_list files) = [3, 1] \<and>
        (case writeThermostatHistoryByDate str_le ''/b'' ''site'' fs1 example_entry of
           Inl e \<Rightarrow> False
         | Inr (fs2, files2, events2) \<Rightarrow>
             map wf_entryCount (written_list files2) = [3, 1] \<and>
             fs2 ''/b/site/A1/2025/08/30.json'' = fs1 ''/b/site/A1/2025/08/30.json'' \<and>
             fs2 ''/b/site/A1/2025/08/31.json'' = fs1 ''/b/site/A1/2025/08/31.json''))"
proof
  show "\<exists>fs1 files events.
      writeThermostatHistoryByDate str_le ''/b'' ''site'' example_store example_entry
        = Inr (fs1, files, events) \<and>
      writeThermostatHistoryByDate str_le ''/b'' ''site'' fs1 example_entry
        = Inr (fs1, files, events)"
    by (rule merge_write_idempotent [OF total_preorder_str_le])
  show "case writeThermostatHistoryByDate str_le ''/b'' ''site'' example_store example_entry of
      Inl e \<Rightarrow> False
    | Inr (fs1, files, events) \<Rightarrow>
        map wf_entryCount (written_list files) = [3, 1] \<and>
        (case writeThermostatHistoryByDate str_le ''/b'' ''site'' fs1 example_entry of
           Inl e \<Rightarrow> False
         | Inr (fs2, files2, events2) \<Rightarrow>
             map wf_entryCount (written_list files2) = [3, 1] \<and>
             fs2 ''/b/site/A1/2025/08/30.json'' = fs1 ''/b/site/A1/2025/08/30.json'' \<and>
             fs2 ''/b/site/A1/2025/08/31.json'' = fs1 ''/b/site/A1/2025/08/31.json'')"
    by code_simp
qed

lemma example_store_clean:
  "\<lparr>timestamp = Some ''n/a'', payload = ''undated''\<rparr> \<notin> set (existing_records example_store p)"
  by (simp add: existing_records_def example_store_def)

text \<open>The witness of C9: the record with the timestamp \<^verbatim>\<open>n/a\<close> is in no file after the
  write, and the entry without a serial number writes nothing.\<close>

theorem undated_records_dropped_witness:
  "(\<exists>fs' files events.
      writeThermostatHistoryByDate str_le ''/b'' ''site'' example_store example_entry
        = Inr (fs', files, events) \<and>
      (\<exists>files'. writeThermostatHistoryByDate str_le ''/b'' ''site'' example_store
                   (example_entry\<lparr>History := Some (filter has_date (history_of example_entry))\<rparr>)
                 = Inr (fs', files', events) \<and>
                 written_list files' = written_list files) \<and>
      (\<forall>p. \<lparr>timestamp = Some ''n/a'', payload = ''undated''\<rparr> \<notin> set (existing_records fs' p))) \<and>
   writeThermostatHistoryByDate str_le ''/b'' ''site'' example_store
     (example_entry\<lparr>serialNo := None\<rparr>) = Inr (example_store, None, []) \<and>
   map payload (filter has_date (history_of example_entry)) = [''new 2'', ''new 0'', ''next day'']"
proof (intro conjI)
  let ?u = "\<lparr>timestamp = Some ''n/a'', payload = ''undated''\<rparr>"
  note inst = undated_records_dropped [of str_le "''/b''" "''site''" example_store example_entry]
  from inst obtain fs' files events where
    w: "writeThermostatHistoryByDate str_le ''/b'' ''site'' example_store example_entry
          = Inr (fs', files, events)"
    by (metis prod_cases3)
  have h: "History example_entry = Some (history_of example_entry)"
    by (simp add: example_entry_def history_of_def)
  have u: "?u \<in> set (history_of example_entry)" "\<not> has_date ?u"
    by code_simp+
  from inst w h have
    "\<exists>files'. writeThermostatHistoryByDate str_le ''/b'' ''site'' example_store
                 (example_entry\<lparr>History := Some (filter has_date (history_of example_entry))\<rparr>)
               = Inr (fs', files', events) \<and>
               written_list files' = written_list files"
    by blast
  moreover from inst w h u have
    "\<forall>p. ?u \<in> set (existing_records fs' p) \<longrightarrow> ?u \<in> set (existing_records example_store p)"
    by blast
  then have "\<forall>p. ?u \<notin> set (existing_records fs' p)"
    using example_store_clean by blast
  ultimately show "\<exists>fs' files events.
      writeThermostatHistoryByDate str_le ''/b'' ''site'' example_store example_entry
        = Inr (fs', files, events) \<and>
      (\<exists>files'. writeThermostatHistoryByDate str_le ''/b'' ''site'' example_store
                   (example_entry\<lparr>History := Some (filter has_date (history_of example_entry))\<rparr>)
                 = Inr (fs', files', events) \<and>
                 written_list files' = written_list files) \<and>
      (\<forall>p. ?u \<notin> set (existing_records fs' p))"
    using w by blast
  have "\<not> truthy (serialNo (example_entry\<lparr>serialNo := None\<rparr>))"
    by (simp add: truthy_def)
  with undated_records_dropped [of str_le "''/b''" "''site''" example_store
      "example_entry\<lparr>serialNo := None\<rparr>"]
  show "writeThermostatHistoryByDate str_le ''/b'' ''site'' example_store
     (example_entry\<lparr>serialNo := None\<rparr>) = Inr (example_store, None, [])"
    by blast
  show "map payload (filter has_date (history_of example_entry))
          = [''new 2'', ''new 0'', ''next day'']"
    by code_simp
qed

section \<open>Properties of the range splitter\<close>

lemma div_ge_iff: "0 < d \<Longrightarrow> (k \<le> x div d) = (k * d \<le> (x::int))"
proof -
  assume d: "0 < d"
  have "(x - k * d) div d = x div d - k"
    using d by (metis diff_conv_add_uminus div_mult_self1 less_irrefl mult_minus_left uminus_add_conv_diff)
  then show ?thesis
    using pos_imp_zdiv_nonneg_iff [OF d, of "x - k * d"] by simp
qed


lemma dayMs_pos: "0 < dayMs"
  by (simp add: dayMs_def)

text \<open>A zone with a fixed offset meets the requirements, and so does America/Chicago in
  2025, whose days are 23, 24 and 25 hours long.\<close>

lemma zone_ok_fixed: "zone_ok (fixed_zone offset)"
  unfolding zone_ok_def fixed_zone_def local_day_def midnight_def
  by (simp add: div_ge_iff [OF dayMs_pos] algebra_simps)












text \<open>Local days and midnights in a zone that meets the requirements.\<close>

lemma zone_day_le: "zone_ok z \<Longrightarrow> (k \<le> local_day z t) = (midnight z k \<le> t)"
  by (simp add: zone_ok_def)

lemma local_day_toUTC: "zone_ok z \<Longrightarrow> local_day z (toUTC z l) = l div dayMs"
  by (simp add: zone_ok_def)

lemma local_day_midnight: "zone_ok z \<Longrightarrow> local_day z (midnight z k) = k"
  using local_day_toUTC [of z "k * dayMs"] dayMs_pos by (simp add: midnight_def)




lemma setHours_start: "setHours z 0 t = midnight z (local_day z t)"
  by (simp add: setHours_def midnight_def)



lemma sec_midnight: "zone_ok z \<Longrightarrow> toPelicanDateTime z (midnight z k) = k * 86400"
  by (simp add: zone_ok_def toPelicanDateTime_def dayMs_def)


















text \<open>The length of the sub-spans.  A sub-span that starts at a local midnight ends before
  the midnight \<open>n\<close> days later when the \<open>n\<close> days from its start are not short; one that
  starts inside a day may run to the end of the \<open>n\<close>-th day after its own.\<close>

lemma midnight_mono: "zone_ok z \<Longrightarrow> j \<le> k \<Longrightarrow> midnight z j \<le> midnight z k"
  using zone_day_le [of z j "midnight z k"] by (simp add: local_day_midnight)











text \<open>The start that \<^verbatim>\<open>resolveDateRange\<close> hands on is a local midnight.\<close>

lemma resolved_start_midnight:
  assumes "zone_ok z"
  shows "parseLocal z (toPelicanDateTime z (setHours z 0 t)) = midnight z (local_day z t)"
    "local_day z (midnight z (local_day z t)) = local_day z t"
proof -
  have "toPelicanDateTime z (setHours z 0 t) = local_day z t * 86400"
    by (simp add: setHours_start sec_midnight [OF assms])
  then show "parseLocal z (toPelicanDateTime z (setHours z 0 t)) = midnight z (local_day z t)"
    by (simp add: parseLocal_def midnight_def dayMs_def mult.commute)
  show "local_day z (midnight z (local_day z t)) = local_day z t"
    by (rule local_day_midnight [OF assms])
qed

text \<open>Two instants in order whose wall-clock readings are not: from 01:50 before the clock
  goes back to 01:10 after it, the one sub-span is written with its start after its end.\<close>

lemma repeated_hour_span:
  "civil_ms 2025 11 2 + 6 * 3600000 + 50 * 60000 \<le> civil_ms 2025 11 2 + 7 * 3600000 + 10 * 60000 \<and>
   splitDateRange chicago_2025 (At (civil_ms 2025 11 2 + 6 * 3600000 + 50 * 60000))
       (At (civil_ms 2025 11 2 + 7 * 3600000 + 10 * 60000)) 30 =
     Inr [\<lparr>startDateTime = civil_second 2025 11 2 1 50 0,
           endDateTime = civil_second 2025 11 2 1 10 0\<rparr>]"
  by code_simp




section \<open>The stream extractor on a chunk boundary inside an object\<close>

lemma pieces_payload: "piece1 @ piece2 @ piece3 = scenario_payload"
  by code_simp

lemma whole_payload_run:
  "outcome_of (feed_all Some 10000 initial_parser [scenario_payload])
     = Inr ([''{\"serialNo\":\"A1\",\"History\":[{\"timestamp\":\"2025-08-30T00:00:00\"}]}'',
             ''{\"serialNo\":\"B2\",\"History\":[]}''], 2, True, True)"
  by code_simp

lemma feed_piece1: "feed parse 10000 initial_parser piece1 = Inr after_piece1"
  by code_simp

lemma feed_piece2: "feed parse 10000 after_piece1 piece2 = Inr after_piece2"
  by code_simp

lemma feed_piece3: "feed parse 10000 after_piece2 piece3 = Inr after_piece3"
  by code_simp

lemma three_pieces_run:
  "outcome_of (feed_all (parse :: string \<Rightarrow> string option) 10000 initial_parser
                 [piece1, piece2, piece3])
     = Inr ([], 0, True, False)"
  by (simp add: feed_piece1 feed_piece2 feed_piece3 outcome_of_def after_piece3_def)

text \<open>
  C1 fails on the code.  Fed in one call, the scenario's payload emits its two records, A1
  then B2, and the array is seen to close.  Fed as the three pieces, whatever \<^verbatim>\<open>JSON.parse\<close>
  does, it emits no record at all and the array is never seen to close: each \<^verbatim>\<open>feed\<close> scans the
  retained partial object again from its first character with the brace depth the last
  call ended with, so the depth never returns to zero.
\<close>

theorem chunk_split_inside_object:
  "piece1 @ piece2 @ piece3 = scenario_payload \<and>
   outcome_of (feed_all Some 10000 initial_parser [scenario_payload])
     = Inr ([''{\"serialNo\":\"A1\",\"History\":[{\"timestamp\":\"2025-08-30T00:00:00\"}]}'',
             ''{\"serialNo\":\"B2\",\"History\":[]}''], 2, True, True) \<and>
   outcome_of (feed_all (parse :: string \<Rightarrow> string option) 10000 initial_parser
                 [piece1, piece2, piece3])
     = Inr ([], 0, True, False)"
  using pieces_payload whole_payload_run three_pieces_run [of parse] by (intro conjI)

section \<open>Properties of the rate-limited dispatcher\<close>

lemma spaced_snoc:
  "spaced iv (ts @ [u]) = (spaced iv ts \<and> (ts = [] \<or> last ts + iv \<le> u))"
  by (induction iv ts rule: spaced.induct) auto

lemma spaced_nth:
  "spaced iv ts \<Longrightarrow> n < length ts \<Longrightarrow> ts ! 0 + int n * iv \<le> ts ! n"
proof (induction iv ts arbitrary: n rule: spaced.induct)
  case (1 iv)
  then show ?case by simp
next
  case (2 iv t)
  then show ?case by simp
next
  case (3 iv t u ts)
  show ?case
  proof (cases n)
    case 0
    then show ?thesis by simp
  next
    case (Suc m)
    with "3.prems" have "u + int m * iv \<le> (u # ts) ! m"
      using "3.IH" [of m] by simp
    with "3.prems" Suc show ?thesis
      by (simp add: algebra_simps)
  qed
qed

lemma runQueue_ok:
  assumes "intervalMs st = interval_of key" "timer st = None" "inflight st = None"
    and "running st" and "dispatched st = [] \<or> snd (last (dispatched st)) = lastRunMs st"
    and "spaced (interval_of key) (map snd (dispatched st))"
  shows "limiter_ok key (runQueue now st)"
  using assms by (auto simp: limiter_ok_def runQueue_def Let_def)

lemma enqueue_ok:
  assumes "case m key of None \<Rightarrow> True | Some st \<Rightarrow> limiter_ok key st"
    and "enqueueWithRateLimit now m key (interval_of key) task key = Some st'"
  shows "limiter_ok key st'"
  using assms
  by (auto simp: enqueueWithRateLimit_def getLimiterState_def Let_def limiter_ok_def runQueue_def
      split: option.splits if_splits)

lemma timer_callback_ok:
  assumes "limiter_ok key st" "timer st = Some due" "due \<le> now" "timer_callback now st = Some st'"
  shows "limiter_ok key st'"
  using assms
  by (cases "dispatched st = []")
    (auto simp: timer_callback_def limiter_ok_def spaced_snoc last_map split: list.splits)

lemma task_settled_ok:
  assumes "limiter_ok key st" "inflight st = Some item"
  shows "limiter_ok key (task_settled now item result st)"
  unfolding task_settled_def
  by (rule runQueue_ok) (use assms in \<open>auto simp: limiter_ok_def\<close>)

lemma on_limiter_Some:
  assumes "on_limiter d now key f = Some d'"
  obtains st st' where "limiters d key = Some st" "f st = Some st'"
    "d' = d\<lparr>limiters := (limiters d)(key \<mapsto> st'), clock := now\<rparr>"
  using assms by (auto simp: on_limiter_def split: option.splits)

lemma enqueue_other:
  "k \<noteq> key \<Longrightarrow> enqueueWithRateLimit now m key iv task k = m k"
  by (simp add: enqueueWithRateLimit_def Let_def)

lemma step_ok:
  assumes "dispatcher_ok d" "step taskTimeout d e = Some d'"
  shows "dispatcher_ok d'"
proof -
  obtain now ev where e: "e = (now, ev)" by (cases e)
  show ?thesis
  proof (cases ev)
    case (Submit key task)
    have "limiter_ok k st'"
      if "enqueueWithRateLimit now (limiters d) key (interval_of key) task k = Some st'" for k st'
    proof (cases "k = key")
      case True
      have "case limiters d key of None \<Rightarrow> True | Some st \<Rightarrow> limiter_ok key st"
        using assms(1) by (auto simp: dispatcher_ok_def split: option.splits)
      with that True show ?thesis
        using enqueue_ok [where m = "limiters d" and key = key and now = now and task = task]
        by simp
    next
      case False
      with that assms(1) show ?thesis
        by (simp add: enqueue_other dispatcher_ok_def)
    qed
    with assms(2) show ?thesis
      unfolding e Submit by (auto simp: dispatcher_ok_def split: if_splits)
  next
    case (TimerFires key)
    from assms(2) have
      "on_limiter d now key
         (\<lambda>st. case timer st of None \<Rightarrow> None
                | Some due \<Rightarrow> if now < due then None else timer_callback now st) = Some d'"
      unfolding e TimerFires by (simp split: if_splits)
    then obtain st st' where st: "limiters d key = Some st"
      and f: "(case timer st of None \<Rightarrow> None
               | Some due \<Rightarrow> if now < due then None else timer_callback now st) = Some st'"
      and d': "d' = d\<lparr>limiters := (limiters d)(key \<mapsto> st'), clock := now\<rparr>"
      by (rule on_limiter_Some)
    from f obtain due where "timer st = Some due" "due \<le> now" "timer_callback now st = Some st'"
      by (auto split: option.splits if_splits)
    moreover have "limiter_ok key st"
      using assms(1) st by (simp add: dispatcher_ok_def)
    ultimately have "limiter_ok key st'"
      using timer_callback_ok by blast
    with assms(1) show ?thesis
      by (auto simp: dispatcher_ok_def d')
  next
    case (Settles key result)
    from assms(2) have
      "on_limiter d now key
         (\<lambda>st. case inflight st of None \<Rightarrow> None
                | Some item \<Rightarrow> Some (task_settled now item result st)) = Some d'"
      unfolding e Settles by (simp split: if_splits)
    then obtain st st' where st: "limiters d key = Some st"
      and f: "(case inflight st of None \<Rightarrow> None
               | Some item \<Rightarrow> Some (task_settled now item result st)) = Some st'"
      and d': "d' = d\<lparr>limiters := (limiters d)(key \<mapsto> st'), clock := now\<rparr>"
      by (rule on_limiter_Some)
    from f obtain item where "inflight st = Some item" "st' = task_settled now item result st"
      by (auto split: option.splits)
    moreover have "limiter_ok key st"
      using assms(1) st by (simp add: dispatcher_ok_def)
    ultimately have "limiter_ok key st'"
      by (simp add: task_settled_ok)
    with assms(1) show ?thesis
      by (auto simp: dispatcher_ok_def d')
  next
    case (TimesOut key)
    from assms(2) obtain timeoutMs where
      "on_limiter d now key
         (\<lambda>st. case inflight st of None \<Rightarrow> None
                | Some item \<Rightarrow>
                    if now < lastRunMs st + timeoutMs then None
                    else Some (task_settled now item (Rejected ''Request timeout after 10s'') st))
         = Some d'"
      unfolding e TimesOut by (auto split: if_splits option.splits)
    then obtain st st' where st: "limiters d key = Some st"
      and f: "(case inflight st of None \<Rightarrow> None
               | Some item \<Rightarrow>
                   if now < lastRunMs st + timeoutMs then None
                   else Some (task_settled now item (Rejected ''Request timeout after 10s'') st))
              = Some st'"
      and d': "d' = d\<lparr>limiters := (limiters d)(key \<mapsto> st'), clock := now\<rparr>"
      by (rule on_limiter_Some)
    from f obtain item where "inflight st = Some item"
      "st' = task_settled now item (Rejected ''Request timeout after 10s'') st"
      by (auto split: option.splits if_splits)
    moreover have "limiter_ok key st"
      using assms(1) st by (simp add: dispatcher_ok_def)
    ultimately have "limiter_ok key st'"
      by (simp add: task_settled_ok)
    with assms(1) show ?thesis
      by (auto simp: dispatcher_ok_def d')
  qed
qed

lemma run_ok:
  "dispatcher_ok d \<Longrightarrow> run taskTimeout d es = Some d' \<Longrightarrow> dispatcher_ok d'"
proof (induction es arbitrary: d)
  case Nil
  then show ?case by simp
next
  case (Cons e es)
  then show ?case
    by (auto split: option.splits dest: step_ok)
qed

lemma initial_ok: "dispatcher_ok initial_dispatcher"
  by (simp add: dispatcher_ok_def initial_dispatcher_def)

lemma on_limiter_tasks:
  assumes "on_limiter d now key f = Some d'"
    and "\<And>st st'. f st = Some st' \<Longrightarrow>
           map fst (dispatched st') @ queue st' = map fst (dispatched st) @ queue st"
  shows "tasks_of d' k = tasks_of d k"
proof -
  from assms(1) obtain st st' where "limiters d key = Some st" "f st = Some st'"
    "d' = d\<lparr>limiters := (limiters d)(key \<mapsto> st'), clock := now\<rparr>"
    by (rule on_limiter_Some)
  with assms(2) [of st st'] show ?thesis
    by (simp add: tasks_of_def)
qed

lemma runQueue_tasks [simp]:
  "dispatched (runQueue now st) = dispatched st" "queue (runQueue now st) = queue st"
  by (simp_all add: runQueue_def Let_def)

lemma step_tasks:
  assumes "step taskTimeout d (now, ev) = Some d'"
  shows "tasks_of d' k = tasks_of d k @ submitted k [(now, ev)]"
proof (cases ev)
  case (Submit key task)
  with assms show ?thesis
    by (auto simp: tasks_of_def enqueueWithRateLimit_def getLimiterState_def Let_def
        split: if_splits option.splits)
next
  case (TimerFires key)
  with assms have "tasks_of d' k = tasks_of d k"
    by (auto split: if_splits elim!: on_limiter_tasks
        simp: timer_callback_def split: option.splits list.splits)
  with TimerFires show ?thesis by simp
next
  case (Settles key result)
  with assms have "tasks_of d' k = tasks_of d k"
    by (auto split: if_splits elim!: on_limiter_tasks
        simp: task_settled_def split: option.splits)
  with Settles show ?thesis by simp
next
  case (TimesOut key)
  with assms have "tasks_of d' k = tasks_of d k"
    by (auto split: if_splits option.splits elim!: on_limiter_tasks
        simp: task_settled_def)
  with TimesOut show ?thesis by simp
qed

lemma submitted_append: "submitted k (es @ fs) = submitted k es @ submitted k fs"
  by (induction k es rule: submitted.induct) auto

lemma run_tasks:
  "run taskTimeout d es = Some d' \<Longrightarrow> tasks_of d' k = tasks_of d k @ submitted k es"
proof (induction es arbitrary: d)
  case Nil
  then show ?case by simp
next
  case (Cons e es)
  obtain now ev where e: "e = (now, ev)" by (cases e)
  from Cons.prems obtain d1 where s: "step taskTimeout d (now, ev) = Some d1"
    and r: "run taskTimeout d1 es = Some d'"
    by (auto simp: e split: option.splits)
  have "tasks_of d' k = (tasks_of d k @ submitted k [(now, ev)]) @ submitted k es"
    using Cons.IH [OF r] step_tasks [OF s] by simp
  then show ?case
    using submitted_append [of k "[(now, ev)]" es] by (simp add: e)
qed

lemma step_clock: "step taskTimeout d (now, ev) = Some d' \<Longrightarrow> clock d \<le> now \<and> clock d' = now"
  by (cases ev) (auto simp: on_limiter_def split: if_splits option.splits)

lemma step_other:
  "step taskTimeout d (now, ev) = Some d' \<Longrightarrow> key_of ev \<noteq> k \<Longrightarrow> limiters d' k = limiters d k"
  by (cases ev) (auto simp: on_limiter_def enqueue_other split: if_splits option.splits)

lemma enqueue_same:
  "m1 key = m2 key \<Longrightarrow>
   enqueueWithRateLimit now m1 key iv task key = enqueueWithRateLimit now m2 key iv task key"
  by (simp add: enqueueWithRateLimit_def getLimiterState_def Let_def)

lemma step_same:
  assumes "step taskTimeout d1 (now, ev) = Some d1'" "key_of ev = k"
    and "limiters d2 k = limiters d1 k" "clock d2 \<le> clock d1"
  shows "\<exists>d2'. step taskTimeout d2 (now, ev) = Some d2' \<and> limiters d2' k = limiters d1' k"
proof -
  have c: "\<not> now < clock d2"
    using step_clock [OF assms(1)] assms(4) by simp
  show ?thesis
  proof (cases ev)
    case (Submit key task)
    with assms c show ?thesis
      using enqueue_same [of "limiters d2" k "limiters d1" now "interval_of k" task]
      by (auto split: if_splits)
  next
    case (TimerFires key)
    with assms c show ?thesis
      by (auto simp: on_limiter_def split: if_splits option.splits)
  next
    case (Settles key result)
    with assms c show ?thesis
      by (auto simp: on_limiter_def split: if_splits option.splits)
  next
    case (TimesOut key)
    with assms c show ?thesis
      by (auto simp: on_limiter_def split: if_splits option.splits)
  qed
qed

lemma run_independent:
  "run taskTimeout d1 es = Some d1' \<Longrightarrow> limiters d2 k = limiters d1 k \<Longrightarrow> clock d2 \<le> clock d1 \<Longrightarrow>
   \<exists>d2'. run taskTimeout d2 (events_of k es) = Some d2' \<and> limiters d2' k = limiters d1' k"
proof (induction es arbitrary: d1 d2)
  case Nil
  then show ?case by (simp add: events_of_def)
next
  case (Cons e es)
  obtain now ev where e: "e = (now, ev)" by (cases e)
  from Cons.prems(1) obtain d1m where s: "step taskTimeout d1 (now, ev) = Some d1m"
    and r: "run taskTimeout d1m es = Some d1'"
    by (auto simp: e split: option.splits)
  note c = step_clock [OF s]
  show ?case
  proof (cases "key_of ev = k")
    case True
    from step_same [OF s True Cons.prems(2,3)] obtain d2m where
      s2: "step taskTimeout d2 (now, ev) = Some d2m" and l: "limiters d2m k = limiters d1m k"
      by blast
    have "clock d2m \<le> clock d1m"
      using step_clock [OF s2] c by simp
    from Cons.IH [OF r l this] obtain d2' where
      "run taskTimeout d2m (events_of k es) = Some d2'" "limiters d2' k = limiters d1' k"
      by blast
    with True s2 show ?thesis
      by (simp add: events_of_def e)
  next
    case False
    have l: "limiters d2 k = limiters d1m k"
      using step_other [OF s False] Cons.prems(2) by simp
    have "clock d2 \<le> clock d1m"
      using c Cons.prems(3) by simp
    from Cons.IH [OF r l this] False show ?thesis
      by (simp add: events_of_def e)
  qed
qed

text \<open>
  C7.  After any run of events from the initial state, for every key: the tasks dispatched,
  followed by those still queued, are the tasks submitted under the key in their order of
  submission; the \<open>n\<close>-th dispatch after the first begins no earlier than \<open>n\<close> intervals
  after it, the interval being 1000 / QPS = 100 ms; and the limiter of the key is what the
  events of that key alone produce, whatever happens under other keys.
\<close>

theorem fifo_and_spacing:
  assumes "run taskTimeout initial_dispatcher es = Some d" and "limiters d key = Some st"
  shows "map fst (dispatched st) @ queue st = submitted key es \<and>
         (\<forall>n<length (dispatched st).
            snd (dispatched st ! 0) + int n * interval_of key \<le> snd (dispatched st ! n)) \<and>
         interval_of key = 1000 div qps_of key \<and> qps_of key = 10 \<and>
         (\<exists>d'. run taskTimeout initial_dispatcher (events_of key es) = Some d' \<and>
               limiters d' key = Some st)"
proof (intro conjI)
  have "tasks_of d key = submitted key es"
    using run_tasks [OF assms(1), of key] by (simp add: tasks_of_def initial_dispatcher_def)
  then show "map fst (dispatched st) @ queue st = submitted key es"
    using assms(2) by (simp add: tasks_of_def)
  have "dispatcher_ok d"
    by (rule run_ok [OF initial_ok assms(1)])
  then have "spaced (interval_of key) (map snd (dispatched st))"
    using assms(2) by (simp add: dispatcher_ok_def limiter_ok_def)
  then show "\<forall>n<length (dispatched st).
            snd (dispatched st ! 0) + int n * interval_of key \<le> snd (dispatched st ! n)"
  proof (intro allI impI)
    fix n
    assume n: "n < length (dispatched st)"
    then have "0 < length (dispatched st)" by (cases "dispatched st") simp_all
    with n spaced_nth [of "interval_of key" "map snd (dispatched st)" n]
      \<open>spaced (interval_of key) (map snd (dispatched st))\<close>
    show "snd (dispatched st ! 0) + int n * interval_of key \<le> snd (dispatched st ! n)"
      by simp
  qed
  show "qps_of key = 10"
    by (simp add: qps_of_def CLIENT_QPS_def DEFAULT_QPS_def GLOBAL_QPS_def)
  then show "interval_of key = 1000 div qps_of key"
    by (simp add: interval_of_def)
  show "\<exists>d'. run taskTimeout initial_dispatcher (events_of key es) = Some d' \<and>
               limiters d' key = Some st"
    using run_independent [OF assms(1), of initial_dispatcher key] assms(2) by simp
qed

lemma example_run:
  "case run co_api initial_dispatcher example_events of
     None \<Rightarrow> False
   | Some d \<Rightarrow>
       (case limiters d ''1841'' of
          None \<Rightarrow> False
        | Some st \<Rightarrow> dispatched st = [(1, 1003), (2, 1103)] \<and> queue st = [] \<and>
                     delivered st = [(1, Resolved ''a'')])"
  by code_simp

text \<open>The witness of C7: the second dispatch under key 1841 comes 100 ms after the first,
  with a submission and a dispatch under key 7 in between.\<close>

theorem fifo_and_spacing_witness:
  "\<exists>d st. run co_api initial_dispatcher example_events = Some d \<and>
          limiters d ''1841'' = Some st \<and>
          dispatched st = [(1, 1003), (2, 1103)] \<and>
          map fst (dispatched st) @ queue st = submitted ''1841'' example_events \<and>
          (\<forall>n<length (dispatched st).
             snd (dispatched st ! 0) + int n * interval_of ''1841'' \<le> snd (dispatched st ! n)) \<and>
          interval_of ''1841'' = 1000 div qps_of ''1841'' \<and> qps_of ''1841'' = 10 \<and>
          (\<exists>d'. run co_api initial_dispatcher (events_of ''1841'' example_events) = Some d' \<and>
                limiters d' ''1841'' = Some st)"
proof -
  from example_run obtain d st where
    r: "run co_api initial_dispatcher example_events = Some d"
    and l: "limiters d ''1841'' = Some st"
    and v: "dispatched st = [(1, 1003), (2, 1103)]"
    by (auto split: option.splits)
  from fifo_and_spacing [OF r l] r l v show ?thesis
    by blast
qed

lemma co_api_blocked_step:
  assumes "step co_api d (now, ev) = Some d'" and "limiters d key = Some st"
    and "inflight st = Some item" and "\<forall>result. ev \<noteq> Settles key result"
    and "limiter_ok key st"
  shows "\<exists>st'. limiters d' key = Some st' \<and> inflight st' = Some item \<and>
               dispatched st' = dispatched st \<and> delivered st' = delivered st \<and>
               limiter_ok key st'"
proof (cases "key_of ev = key")
  case False
  with assms show ?thesis
    using step_other [OF assms(1) False] by simp
next
  case True
  show ?thesis
  proof (cases ev)
    case (Submit k task)
    with assms True show ?thesis
      by (auto simp: enqueueWithRateLimit_def getLimiterState_def Let_def limiter_ok_def
          split: if_splits)
  next
    case (TimerFires k)
    with assms True show ?thesis
      by (auto simp: on_limiter_def limiter_ok_def split: if_splits option.splits)
  next
    case (Settles k result)
    with assms True show ?thesis by simp
  next
    case (TimesOut k)
    with assms show ?thesis
      by (simp add: co_api_def split: if_splits)
  qed
qed

lemma co_api_blocked:
  "run co_api d es = Some d' \<Longrightarrow> limiters d key = Some st \<Longrightarrow> inflight st = Some item \<Longrightarrow>
   limiter_ok key st \<Longrightarrow> \<forall>now result. (now, Settles key result) \<notin> set es \<Longrightarrow>
   \<exists>st'. limiters d' key = Some st' \<and> inflight st' = Some item \<and>
         dispatched st' = dispatched st \<and> delivered st' = delivered st"
proof (induction es arbitrary: d st)
  case Nil
  then show ?case by simp
next
  case (Cons e es)
  obtain now ev where e: "e = (now, ev)" by (cases e)
  from Cons.prems(1) obtain d1 where s: "step co_api d (now, ev) = Some d1"
    and r: "run co_api d1 es = Some d'"
    by (auto simp: e split: option.splits)
  have ne: "\<forall>result. ev \<noteq> Settles key result"
    using Cons.prems(5) by (auto simp: e)
  from co_api_blocked_step [OF s Cons.prems(2,3) ne Cons.prems(4)] obtain st1 where
    st1: "limiters d1 key = Some st1" "inflight st1 = Some item"
      "dispatched st1 = dispatched st" "delivered st1 = delivered st" "limiter_ok key st1"
    by blast
  have "\<forall>now result. (now, Settles key result) \<notin> set es"
    using Cons.prems(5) by simp
  from Cons.IH [OF r st1(1,2,5) this] st1(3,4) show ?case
    by simp
qed

text \<open>
  C8 fails on \<^verbatim>\<open>co-api.js\<close>.  With the first task dispatched at 1001 and never settling, nothing
  is delivered and the second task stays queued, also after a later submission; a timeout is
  not an event of this dispatcher.  In the edge-compatible client the timeout at 11001
  rejects the first submission and the second task is dispatched.
\<close>

theorem hung_task_blocks_queue:
  "(case run co_api initial_dispatcher (hung_events @ [(400000, Submit ''1841'' 3)]) of
      None \<Rightarrow> False
    | Some d \<Rightarrow>
        (case limiters d ''1841'' of
           None \<Rightarrow> False
         | Some st \<Rightarrow> inflight st = Some 1 \<and> dispatched st = [(1, 1001)] \<and>
                      queue st = [2, 3] \<and> timer st = None \<and> delivered st = [])) \<and>
   (case run co_api initial_dispatcher (hung_events @ [(11001, TimesOut ''1841'')]) of
      None \<Rightarrow> True
    | Some d \<Rightarrow> False) \<and>
   (case run co_client initial_dispatcher
           (hung_events @ [(11001, TimesOut ''1841''), (11001, TimerFires ''1841'')]) of
      None \<Rightarrow> False
    | Some d \<Rightarrow>
        (case limiters d ''1841'' of
           None \<Rightarrow> False
         | Some st \<Rightarrow> delivered st = [(1, Rejected ''Request timeout after 10s'')] \<and>
                      dispatched st = [(1, 1001), (2, 11001)] \<and> queue st = []))"
  by code_simp

end
